theory Spec2Isabelle
  imports Main "HOL-Library.Sublist" "HOL-Library.Multiset"
begin

section \<open>JavaScript strings as used by bin/index.js\<close>

text \<open>
  A JavaScript string is a finite sequence of code units; here it is a \<open>string\<close>
  (a \<open>char list\<close>).  The program uses two library operations on strings:
  \<open>String.prototype.replace\<close> with a string pattern (four times, on the config
  template) and with the regular expression \<open>/\\/g\<close> (in \<open>normalizePath\<close>).
\<close>

definition backslash :: char where
  "backslash = CHR 0x5C"

definition dollar :: char where
  "dollar = CHR 0x24"

definition ampersand :: char where
  "ampersand = CHR 0x26"

definition backtick :: char where
  "backtick = CHR 0x60"

definition apostrophe :: char where
  "apostrophe = CHR 0x27"

definition percent :: char where
  "percent = CHR 0x25"

definition slash :: char where
  "slash = CHR 0x2F"

text \<open>
  \<open>indexOf s pat\<close> is the position of the first occurrence of \<open>pat\<close> in \<open>s\<close>
  (ECMAScript \<open>StringIndexOf\<close> from position 0); \<open>None\<close> stands for the result
  "not found".
\<close>

fun indexOf :: "string \<Rightarrow> string \<Rightarrow> nat option" where
  "indexOf [] pat = (if pat = [] then Some 0 else None)"
| "indexOf (c # cs) pat =
     (if prefix pat (c # cs) then Some 0
      else (case indexOf cs pat of None \<Rightarrow> None | Some i \<Rightarrow> Some (Suc i)))"

text \<open>
  ECMAScript \<open>GetSubstitution\<close> for a string pattern: there are no captures and no
  named groups, so the only sequences that expand are \<open>$$\<close> (a dollar sign),
  \<open>$&\<close> (the matched text), \<open>$`\<close> (the text before the match) and \<open>$'\<close> (the
  text after the match); \<open>$1\<close>, \<open>$<\<close> and a lone \<open>$\<close> stay as they are.
\<close>

fun getSubstitution :: "string \<Rightarrow> string \<Rightarrow> nat \<Rightarrow> string \<Rightarrow> string" where
  "getSubstitution matched str position [] = []"
| "getSubstitution matched str position [c] = [c]"
| "getSubstitution matched str position (c # d # rest) =
     (if c = dollar then
        (if d = dollar then dollar # getSubstitution matched str position rest
         else if d = ampersand then matched @ getSubstitution matched str position rest
         else if d = backtick then take position str @ getSubstitution matched str position rest
         else if d = apostrophe then
           drop (position + length matched) str @ getSubstitution matched str position rest
         else c # getSubstitution matched str position (d # rest))
      else c # getSubstitution matched str position (d # rest))"

text \<open>
  \<open>s.replace(pat, rep)\<close> with a string \<open>pat\<close>: only the first occurrence is
  replaced, and the replacement text is the result of \<open>GetSubstitution\<close>.
\<close>

definition replace :: "string \<Rightarrow> string \<Rightarrow> string \<Rightarrow> string" where
  "replace s pat rep =
     (case indexOf s pat of
        None \<Rightarrow> s
      | Some pos \<Rightarrow>
          take pos s @ getSubstitution pat s pos rep @ drop (pos + length pat) s)"

text \<open>\<open>normalizePath\<close> (index.js, lines 20 to 22): every backslash becomes a slash.\<close>

definition normalizePath :: "string \<Rightarrow> string" where
  "normalizePath filePath = map (\<lambda>c. if c = backslash then slash else c) filePath"

section \<open>The POSIX flavour of Node's path module\<close>

text \<open>
  \<open>path.join\<close> and \<open>path.resolve\<close> belong to Node, not to this repository.  They
  are modelled on the segments of a path, which is what Node's \<open>normalizeString\<close>
  computes character by character: empty segments and \<open>.\<close> are dropped, \<open>..\<close>
  removes the segment before it, and above the root \<open>..\<close> is kept only when
  \<open>allowAboveRoot\<close> is set.
\<close>

fun splitSlash :: "string \<Rightarrow> string \<Rightarrow> string list" where
  "splitSlash cur [] = [rev cur]"
| "splitSlash cur (c # cs) =
     (if c = slash then rev cur # splitSlash [] cs else splitSlash (c # cur) cs)"

fun joinSlash :: "string list \<Rightarrow> string" where
  "joinSlash [] = []"
| "joinSlash [x] = x"
| "joinSlash (x # y # zs) = x @ slash # joinSlash (y # zs)"

fun normalizeSegments :: "bool \<Rightarrow> string list \<Rightarrow> string list \<Rightarrow> string list" where
  "normalizeSegments allowAboveRoot res [] = rev res"
| "normalizeSegments allowAboveRoot res (seg # segs) =
     (if seg = [] \<or> seg = ''.'' then normalizeSegments allowAboveRoot res segs
      else if seg = ''..'' then
        (if res \<noteq> [] \<and> hd res \<noteq> ''..'' then normalizeSegments allowAboveRoot (tl res) segs
         else if allowAboveRoot then normalizeSegments allowAboveRoot (''..'' # res) segs
         else normalizeSegments allowAboveRoot res segs)
      else normalizeSegments allowAboveRoot (seg # res) segs)"

definition normalizeString :: "string \<Rightarrow> bool \<Rightarrow> string" where
  "normalizeString p allowAboveRoot =
     joinSlash (normalizeSegments allowAboveRoot [] (splitSlash [] p))"

definition isAbsolute :: "string \<Rightarrow> bool" where
  "isAbsolute p = (p \<noteq> [] \<and> hd p = slash)"

definition normalize :: "string \<Rightarrow> string" where
  "normalize p =
     (if p = [] then ''.''
      else
        let trailingSeparator = (last p = slash);
            q = normalizeString p (\<not> isAbsolute p)
        in if q = [] then (if isAbsolute p then ''/'' else if trailingSeparator then ''./'' else ''.'')
           else (if isAbsolute p then [slash] else []) @ q @ (if trailingSeparator then [slash] else []))"

text \<open>\<open>path.join(a, b)\<close>: the non-empty arguments joined with a slash, normalized.\<close>

definition path_join :: "string list \<Rightarrow> string" where
  "path_join args =
     (let parts = filter (\<lambda>a. a \<noteq> []) args
      in if parts = [] then ''.'' else normalize (joinSlash parts))"

text \<open>
  \<open>path.resolve\<close>: the arguments are taken from the right until an absolute one
  is met; \<open>process.cwd()\<close>, the first argument of \<open>path_resolve\<close> here, is the
  fallback after the last of them.
\<close>

fun resolveLoop :: "string list \<Rightarrow> string \<Rightarrow> string" where
  "resolveLoop [] resolvedPath = resolvedPath"
| "resolveLoop (p # ps) resolvedPath =
     (if p = [] then resolveLoop ps resolvedPath
      else if isAbsolute p then p @ slash # resolvedPath
      else resolveLoop ps (p @ slash # resolvedPath))"

definition path_resolve :: "string \<Rightarrow> string list \<Rightarrow> string" where
  "path_resolve cwd args =
     (let resolvedPath = resolveLoop (rev args @ [cwd]) [];
          resolvedAbsolute = isAbsolute resolvedPath;
          q = normalizeString resolvedPath (\<not> resolvedAbsolute)
      in if resolvedAbsolute then slash # q
         else if q \<noteq> [] then q else ''.'')"

section \<open>The Config Renderer (index.js, lines 116 to 141)\<close>

definition userToken :: string where
  "userToken = ''%%user.file.path%%''"

definition bookingToken :: string where
  "bookingToken = ''%%booking.file.path%%''"

definition transactionToken :: string where
  "transactionToken = ''%%transaction.file.path%%''"

definition slotsToken :: string where
  "slotsToken = ''%%slots.file.path%%''"

definition dataFiles :: "string list" where
  "dataFiles = [''users.json'', ''bookings.json'', ''transactions.json'', ''parkingSlots.json'']"

text \<open>The replacement text of one substitution: \<open>normalizePath(path.join(dataDir, file))\<close>.\<close>

definition dataPath :: "string \<Rightarrow> string \<Rightarrow> string" where
  "dataPath dataDir file = normalizePath (path_join [dataDir, file])"

text \<open>
  The four token/file pairs in the order of the program, and \<open>result\<close>, the chain of
  four \<open>replace\<close> calls of lines 120 to 136.
\<close>

definition substitutions :: "(string \<times> string) list" where
  "substitutions =
     [(userToken, ''users.json''), (bookingToken, ''bookings.json''),
      (transactionToken, ''transactions.json''), (slotsToken, ''parkingSlots.json'')]"

definition substitute :: "string \<Rightarrow> string \<times> string \<Rightarrow> string \<Rightarrow> string" where
  "substitute dataDir tf text = replace text (fst tf) (dataPath dataDir (snd tf))"

definition result :: "string \<Rightarrow> string \<Rightarrow> string" where
  "result template dataDir =
     replace
       (replace
          (replace
             (replace template userToken (dataPath dataDir ''users.json''))
             bookingToken (dataPath dataDir ''bookings.json''))
          transactionToken (dataPath dataDir ''transactions.json''))
       slotsToken (dataPath dataDir ''parkingSlots.json'')"

text \<open>The same chain with the four substitutions applied in a given order.\<close>

definition resultInOrder :: "(string \<times> string) list \<Rightarrow> string \<Rightarrow> string \<Rightarrow> string" where
  "resultInOrder order template dataDir = fold (substitute dataDir) order template"

text \<open>\<open>contains s sub\<close>: \<open>sub\<close> occurs in \<open>s\<close> (JavaScript's \<open>s.includes(sub)\<close>).\<close>

definition contains :: "string \<Rightarrow> string \<Rightarrow> bool" where
  "contains s sub = (indexOf s sub \<noteq> None)"

text \<open>
  \<open>occursAt s sub i\<close>: \<open>sub\<close> occurs in \<open>s\<close> at position \<open>i\<close>; \<open>positions s sub\<close>
  lists all such positions, so its length is the number of occurrences.
\<close>

definition occursAt :: "string \<Rightarrow> string \<Rightarrow> nat \<Rightarrow> bool" where
  "occursAt s sub i = (i + length sub \<le> length s \<and> take (length sub) (drop i s) = sub)"

definition positions :: "string \<Rightarrow> string \<Rightarrow> nat list" where
  "positions s sub = filter (occursAt s sub) [0..<Suc (length s)]"

section \<open>The directories of a run (index.js, lines 57, 73 and 74)\<close>

definition targetDir :: "string \<Rightarrow> string \<Rightarrow> string" where
  "targetDir cwd projectName = path_resolve cwd [cwd, projectName]"

definition appDir :: "string \<Rightarrow> string" where
  "appDir target = path_join [target, ''app'']"

definition dataDir :: "string \<Rightarrow> string" where
  "dataDir target = path_join [target, ''data'']"

section \<open>The file system and the console\<close>

text \<open>
  A file-system path is the list of its segments below the root.  The file system
  is an association list from paths to nodes; a new entry is put in front and
  shadows an older one for the same path.  The functions of \<open>fs-extra\<close> take path
  strings and resolve them against the working directory.
\<close>

type_synonym path = "string list"

datatype node = File string | Dir

type_synonym fs = "(path \<times> node) list"

datatype fsEvent = Removed path | MadeDir path | Wrote path

datatype message =
    Log string
  | Prompt string
  | Step string
  | Error string
  | Uncaught string
  | SpinnerStart string
  | SpinnerSucceed string
  | SpinnerFail string

record world =
  files :: fs
  trace :: "fsEvent list"
  console :: "message list"

definition segments :: "string \<Rightarrow> path" where
  "segments p = filter (\<lambda>seg. seg \<noteq> []) (splitSlash [] p)"

definition fsPath :: "string \<Rightarrow> string \<Rightarrow> path" where
  "fsPath cwd p = segments (path_resolve cwd [p])"

definition lookup :: "fs \<Rightarrow> path \<Rightarrow> node option" where
  "lookup fs p = map_of fs p"

definition emit :: "message \<Rightarrow> world \<Rightarrow> world" where
  "emit m w = w\<lparr>console := console w @ [m]\<rparr>"

text \<open>\<open>fs.existsSync\<close>.\<close>

definition existsSync :: "path \<Rightarrow> world \<Rightarrow> bool" where
  "existsSync p w = (lookup (files w) p \<noteq> None)"

text \<open>
  \<open>fs.remove\<close>: the path and everything below it goes; a missing path is fine.
  The model has no permissions, so a removal never fails.
\<close>

definition remove :: "path \<Rightarrow> world \<Rightarrow> world" where
  "remove p w =
     w\<lparr>files := filter (\<lambda>(q, n). \<not> prefix p q) (files w), trace := trace w @ [Removed p]\<rparr>"

text \<open>
  An operation that can throw returns \<open>Inl (e, w)\<close>: the error \<open>e\<close>, thrown in the
  world \<open>w\<close> reached so far; \<open>Inr w\<close> is a normal return.
\<close>

type_synonym attempt = "(string \<times> world) + world"

definition thenDo :: "attempt \<Rightarrow> (world \<Rightarrow> attempt) \<Rightarrow> attempt" where
  "thenDo r f = (case r of Inl ew \<Rightarrow> Inl ew | Inr w \<Rightarrow> f w)"

text \<open>
  \<open>fs.ensureDir\<close> (\<open>mkdir -p\<close>): every missing directory on the way is made; a
  file on the way is an error.
\<close>

fun ensureDirs :: "path list \<Rightarrow> world \<Rightarrow> attempt" where
  "ensureDirs [] w = Inr w"
| "ensureDirs (p # ps) w =
     (case lookup (files w) p of
        Some (File c) \<Rightarrow> Inl (''ENOTDIR'', w)
      | Some Dir \<Rightarrow> ensureDirs ps w
      | None \<Rightarrow> ensureDirs ps (w\<lparr>files := (p, Dir) # files w, trace := trace w @ [MadeDir p]\<rparr>))"

definition ensureDir :: "path \<Rightarrow> world \<Rightarrow> attempt" where
  "ensureDir p w = ensureDirs (prefixes p) w"

definition writeFile :: "path \<Rightarrow> string \<Rightarrow> world \<Rightarrow> attempt" where
  "writeFile p c w =
     (if p = [] \<or> lookup (files w) p = Some Dir then Inl (''EISDIR'', w)
      else if lookup (files w) (butlast p) \<noteq> Some Dir then Inl (''ENOENT'', w)
      else Inr (w\<lparr>files := (p, File c) # files w, trace := trace w @ [Wrote p]\<rparr>))"

definition readFile :: "path \<Rightarrow> world \<Rightarrow> string + string" where
  "readFile p w =
     (case lookup (files w) p of
        Some (File c) \<Rightarrow> Inr c
      | Some Dir \<Rightarrow> Inl ''EISDIR''
      | None \<Rightarrow> Inl ''ENOENT'')"

text \<open>\<open>fs.copyFile\<close>: the bytes of the source, written to the destination.\<close>

definition copyFile :: "path \<Rightarrow> path \<Rightarrow> world \<Rightarrow> attempt" where
  "copyFile src dest w =
     (case readFile src w of
        Inl e \<Rightarrow> Inl (e, w)
      | Inr c \<Rightarrow> writeFile dest c w)"

text \<open>\<open>fs.outputFile\<close>: \<open>writeFile\<close> after making the parent directory.\<close>

definition outputFile :: "path \<Rightarrow> string \<Rightarrow> world \<Rightarrow> attempt" where
  "outputFile p c w = thenDo (ensureDir (butlast p) w) (writeFile p c)"

section \<open>The environment of a run\<close>

text \<open>
  What the program reads from outside: the working directory, the directory of the
  script (\<open>__dirname\<close>), the two answers typed at the prompts, and the outcomes of
  the three external commands.  \<open>git clone\<close> and \<open>npm install\<close> either throw or
  add entries below \<open>app\<close>, given relative to it; a failing command is taken to
  leave the file system as it was.

  A file holds bytes.  \<open>readFile(..., "utf-8")\<close> decodes them and \<open>outputFile\<close>
  encodes the text again; texts are kept here in their UTF-8 encoding, and
  \<open>utf8Text\<close> is Node's decoding seen that way: the bytes themselves when they are
  valid UTF-8, with U+FFFD in place of each invalid sequence otherwise.
\<close>

record env =
  processCwd :: string
  dirname :: string
  nameAnswer :: string
  overwriteAnswer :: bool
  cloneOutcome :: "string + fs"
  npmOutcome :: "string + fs"
  isWindows :: bool
  catalinaOutcome :: "string + unit"
  utf8Text :: "string \<Rightarrow> string"

definition nl :: char where
  "nl = CHR 0x0A"

text \<open>The \<open>input\<close> prompt of inquirer: an empty answer gives the default.\<close>

definition promptName :: "string \<Rightarrow> string" where
  "promptName answer = (if answer = [] then ''park-me-app'' else answer)"

definition nodeEvent :: "path \<Rightarrow> path \<times> node \<Rightarrow> fsEvent" where
  "nodeEvent base e = (case snd e of Dir \<Rightarrow> MadeDir (base @ fst e) | File c \<Rightarrow> Wrote (base @ fst e))"

definition externalWrites :: "path \<Rightarrow> fs \<Rightarrow> world \<Rightarrow> world" where
  "externalWrites base tree w =
     w\<lparr>files := map (\<lambda>e. (base @ fst e, snd e)) tree @ files w,
       trace := trace w @ map (nodeEvent base) tree\<rparr>"

section \<open>The pipeline (index.js, lines 45 to 196)\<close>

text \<open>
  A step returns \<open>Some code\<close> when it called \<open>process.exit(code)\<close> and \<open>None\<close> when
  the program goes on.
\<close>

type_synonym step = "world \<Rightarrow> nat option \<times> world"

definition seq :: "step \<Rightarrow> step \<Rightarrow> step" where
  "seq f g w = (case f w of (Some code, w') \<Rightarrow> (Some code, w') | (None, w') \<Rightarrow> g w')"

text \<open>The shape of every \<open>try\<close>/\<open>catch\<close> of the program but the last.\<close>

definition tryOrExit :: "string \<Rightarrow> string \<Rightarrow> attempt \<Rightarrow> nat option \<times> world" where
  "tryOrExit succeedText failText r =
     (case r of
        Inr w \<Rightarrow> (None, emit (SpinnerSucceed succeedText) w)
      | Inl (e, w) \<Rightarrow> (Some 1, emit (Error e) (emit (SpinnerFail failText) w)))"

definition gitClone :: "env \<Rightarrow> path \<Rightarrow> world \<Rightarrow> attempt" where
  "gitClone ev base w =
     (case cloneOutcome ev of Inl e \<Rightarrow> Inl (e, w) | Inr tree \<Rightarrow> Inr (externalWrites base tree w))"

text \<open>
  \<open>simpleGit()\<close> (line 26) takes the working directory of the process as its base
  directory and throws when that directory is not there any more, which happens
  when the accepted overwrite has removed it.
\<close>

definition simpleGit :: "env \<Rightarrow> world \<Rightarrow> string + unit" where
  "simpleGit ev w =
     (if lookup (files w) (fsPath (processCwd ev) (processCwd ev)) = Some Dir then Inr ()
      else Inl ''ENOENT: no such file or directory, uv_cwd'')"

text \<open>The spinner and the \<open>try\<close>/\<open>catch\<close> of \<open>cloneRepo\<close> (lines 30 to 42).\<close>

definition cloneTry :: "env \<Rightarrow> string \<Rightarrow> step" where
  "cloneTry ev appPath w =
     tryOrExit ''Cloning completed.'' ''Failed to clone repository.''
       (thenDo (ensureDir (fsPath (processCwd ev) appPath) (emit (SpinnerStart ''Cloning repository...'') w))
          (gitClone ev (fsPath (processCwd ev) appPath)))"

text \<open>
  \<open>cloneRepo\<close> (lines 25 to 43).  The call of \<open>simpleGit()\<close> stands before the
  \<open>try\<close>: what it throws is caught nowhere, the promise of the program's body is
  rejected, and Node prints the error and ends the process with exit code 1.
\<close>

definition cloneRepo :: "env \<Rightarrow> string \<Rightarrow> step" where
  "cloneRepo ev appPath w =
     (case simpleGit ev w of
        Inl e \<Rightarrow> (Some 1, emit (Uncaught e) w)
      | Inr git \<Rightarrow> cloneTry ev appPath w)"

definition projectName :: "env \<Rightarrow> string" where
  "projectName ev = promptName (nameAnswer ev)"

definition target :: "env \<Rightarrow> string" where
  "target ev = targetDir (processCwd ev) (projectName ev)"

definition inputCollector :: "env \<Rightarrow> step" where
  "inputCollector ev w =
     (let w1 = emit (Log [nl]) (emit (Prompt ''Enter your project name:'')
                 (emit (Log (nl # ''Welcome to Park.me Project Setup!'' @ [nl])) w));
          t = fsPath (processCwd ev) (target ev)
      in if existsSync t w1 then
           (let w2 = emit (Prompt (''Directory '' @ [CHR 0x22] @ projectName ev @ [CHR 0x22]
                               @ '' already exists. Overwrite?'')) w1
            in if \<not> overwriteAnswer ev then (Some 0, w2) else (None, remove t w2))
         else (None, w1))"

definition cloneStep :: "env \<Rightarrow> step" where
  "cloneStep ev w = cloneRepo ev (appDir (target ev)) (emit (Step ''Cloning the repository...'') w)"

fun copyAll :: "env \<Rightarrow> string list \<Rightarrow> world \<Rightarrow> attempt" where
  "copyAll ev [] w = Inr w"
| "copyAll ev (file # rest) w =
     thenDo
       (copyFile (fsPath (processCwd ev) (path_join [dirname ev, ''../templates'', file]))
          (fsPath (processCwd ev) (path_join [dataDir (target ev), file])) w)
       (copyAll ev rest)"

definition dataStep :: "env \<Rightarrow> step" where
  "dataStep ev w =
     tryOrExit ''Data folder and files set up successfully.''
       ''Failed to set up data folder or copy files.''
       (thenDo
          (ensureDir (fsPath (processCwd ev) (dataDir (target ev)))
             (emit (SpinnerStart (''Setting up data directory...'' @ [nl]))
                (emit (Step ''Creating data folder and copying files...'') (emit (Log [nl]) w))))
          (copyAll ev dataFiles))"

definition configPath :: "string \<Rightarrow> string" where
  "configPath app = path_join [app, ''src'', ''main'', ''resources'', ''config.properties'']"

definition renderConfig :: "env \<Rightarrow> world \<Rightarrow> attempt" where
  "renderConfig ev w =
     (case readFile (fsPath (processCwd ev)
                       (path_join [dirname ev, ''../assets/config.properties.template''])) w of
        Inl e \<Rightarrow> Inl (e, w)
      | Inr template \<Rightarrow>
          outputFile (fsPath (processCwd ev) (configPath (appDir (target ev))))
            (result (utf8Text ev template) (dataDir (target ev))) w)"

definition configStep :: "env \<Rightarrow> step" where
  "configStep ev w =
     tryOrExit ''config.properties created successfully.'' ''Failed to create config.properties.''
       (renderConfig ev
          (emit (SpinnerStart ''Generating config.properties...'')
             (emit (Step ''Generating config.properties...'') (emit (Log [nl]) w))))"

definition npmInstall :: "env \<Rightarrow> path \<Rightarrow> world \<Rightarrow> attempt" where
  "npmInstall ev base w =
     (case npmOutcome ev of Inl e \<Rightarrow> Inl (e, w) | Inr tree \<Rightarrow> Inr (externalWrites base tree w))"

definition installStep :: "env \<Rightarrow> step" where
  "installStep ev w =
     tryOrExit ''Dependencies installed successfully.'' ''Failed to install dependencies.''
       (npmInstall ev (fsPath (processCwd ev) (appDir (target ev)))
          (emit (SpinnerStart ''Installing dependencies...'')
             (emit (Step ''Installing dependencies...'') (emit (Log [nl]) w))))"

definition tomcatAdvice :: string where
  "tomcatAdvice =
     ''Please install Tomcat to run the application.'' @ [nl]
       @ ''https://tomcat.apache.org/download-90.cgi''"

definition catalinaCommand :: "env \<Rightarrow> string" where
  "catalinaCommand ev = (if isWindows ev then ''catalina.bat version'' else ''catalina version'')"

text \<open>The last \<open>try\<close>/\<open>catch\<close> (lines 172 to 183): its \<open>catch\<close> does not exit.\<close>

definition tomcatStep :: "env \<Rightarrow> step" where
  "tomcatStep ev w =
     (let w1 = emit (SpinnerStart ''Checking for Tomcat...'')
                 (emit (Step ''Checking for Tomcat...'') (emit (Log [nl]) w))
      in case catalinaOutcome ev of
           Inr u \<Rightarrow> (None, emit (SpinnerSucceed ''Tomcat is installed.'') w1)
         | Inl e \<Rightarrow> (None, emit (Log tomcatAdvice) (emit (SpinnerFail ''Tomcat is not installed.'') w1)))"

definition successText :: string where
  "successText = nl # ''Setup completed successfully!''"

definition nextSteps :: "env \<Rightarrow> string" where
  "nextSteps ev =
     nl # ''Next Steps:'' @ [nl]
       @ ''1. Navigate to the project directory:'' @ [nl] @ ''   cd '' @ projectName ev @ [nl]
       @ ''2. Open the project in your IDE.'' @ [nl]
       @ ''3. Configure Tomcat to deploy from /app.'' @ [nl]
       @ ''4. Start coding! '' @ [CHR 0xF0, CHR 0x9F, CHR 0xA4, CHR 0x97] @ '' '' @ [nl]"

definition doneStep :: "env \<Rightarrow> step" where
  "doneStep ev w = (None, emit (Log (nextSteps ev)) (emit (Log successText) w))"

definition provision :: "env \<Rightarrow> step" where
  "provision ev =
     seq (cloneStep ev) (seq (dataStep ev) (seq (configStep ev) (seq (installStep ev)
       (seq (tomcatStep ev) (doneStep ev)))))"

definition main :: "env \<Rightarrow> step" where
  "main ev = seq (inputCollector ev) (provision ev)"

text \<open>The exit code of the process: that of \<open>process.exit\<close>, or 0 at a normal end.\<close>

definition exitCode :: "nat option \<times> world \<Rightarrow> nat" where
  "exitCode r = (case fst r of None \<Rightarrow> 0 | Some code \<Rightarrow> code)"

definition initialWorld :: "fs \<Rightarrow> world" where
  "initialWorld fs0 = \<lparr>files = fs0, trace = [], console = []\<rparr>"

text \<open>The steps before the prerequisite check, as one step.\<close>

definition beforeTomcat :: "env \<Rightarrow> step" where
  "beforeTomcat ev =
     seq (inputCollector ev) (seq (cloneStep ev) (seq (dataStep ev) (seq (configStep ev)
       (installStep ev))))"

section \<open>Paths in normal form\<close>

text \<open>
  A segment is clean when \<open>normalizeString\<close> keeps it as it is; \<open>canon segs\<close> is the
  absolute path string with the segments \<open>segs\<close>.
\<close>

definition cleanSegment :: "string \<Rightarrow> bool" where
  "cleanSegment seg = (seg \<noteq> [] \<and> slash \<notin> set seg \<and> seg \<noteq> ''.'' \<and> seg \<noteq> ''..'')"

definition canon :: "path \<Rightarrow> string" where
  "canon segs = slash # joinSlash segs"

text \<open>The file-system paths of a run.\<close>

definition fsTarget :: "env \<Rightarrow> path" where
  "fsTarget ev = fsPath (processCwd ev) (target ev)"

definition fsApp :: "env \<Rightarrow> path" where
  "fsApp ev = fsPath (processCwd ev) (appDir (target ev))"

definition fsData :: "env \<Rightarrow> path" where
  "fsData ev = fsPath (processCwd ev) (dataDir (target ev))"

definition fsDataFile :: "env \<Rightarrow> string \<Rightarrow> path" where
  "fsDataFile ev file = fsPath (processCwd ev) (path_join [dataDir (target ev), file])"


definition fsConfig :: "env \<Rightarrow> path" where
  "fsConfig ev = fsPath (processCwd ev) (configPath (appDir (target ev)))"

text \<open>
  A file system is well formed when the parent of every entry is a directory.
\<close>

definition wf_fs :: "fs \<Rightarrow> bool" where
  "wf_fs fs = (\<forall>e \<in> set fs. fst e = [] \<or> lookup fs (butlast (fst e)) = Some Dir)"

text \<open>The world in which an attempt ended, thrown or not.\<close>

definition worldOf :: "attempt \<Rightarrow> world" where
  "worldOf r = (case r of Inl ew \<Rightarrow> snd ew | Inr w \<Rightarrow> w)"

text \<open>
  The clone step fails when \<open>simpleGit()\<close> throws, when \<open>ensureDir\<close> throws or
  when \<open>git clone\<close> throws.
\<close>

definition cloneFailure :: "env \<Rightarrow> world \<Rightarrow> bool" where
  "cloneFailure ev w =
     (isl (simpleGit ev w) \<or> isl (ensureDir (fsApp ev) w) \<or> isl (cloneOutcome ev))"

section \<open>Occurrences of the placeholder tokens\<close>

definition tokens :: "string list" where
  "tokens = [userToken, bookingToken, transactionToken, slotsToken]"

text \<open>
  A token-like text starts and ends with a percent sign and has no slash; a plain
  text has no percent sign and no dollar sign and has a slash.  The four tokens are
  token-like; the path of a data file is plain when the data directory is an
  absolute path without percent and dollar signs.
\<close>

definition tokenLike :: "string \<Rightarrow> bool" where
  "tokenLike k = (k \<noteq> [] \<and> hd k = percent \<and> last k = percent \<and> slash \<notin> set k)"

definition plainPath :: "string \<Rightarrow> bool" where
  "plainPath p = (percent \<notin> set p \<and> dollar \<notin> set p \<and> slash \<in> set p)"

definition plainDir :: "string \<Rightarrow> bool" where
  "plainDir d = (isAbsolute d \<and> percent \<notin> set d \<and> dollar \<notin> set d)"

text \<open>\<open>splice s i n p\<close>: \<open>s\<close> with the \<open>n\<close> characters from position \<open>i\<close> replaced by \<open>p\<close>.\<close>

definition splice :: "string \<Rightarrow> nat \<Rightarrow> nat \<Rightarrow> string \<Rightarrow> string" where
  "splice s i n p = take i s @ p @ drop (i + n) s"

text \<open>
  \<open>separated s\<close>: no two occurrences of tokens in \<open>s\<close> overlap.
  \<open>clearOfTokens s u\<close>: some occurrence of \<open>u\<close> in \<open>s\<close> overlaps no occurrence of a
  token.  \<open>atMostOnce s\<close>: no token occurs twice in \<open>s\<close>.
\<close>

definition separated :: "string \<Rightarrow> bool" where
  "separated s =
     (\<forall>a \<in> set tokens. \<forall>b \<in> set tokens.
        \<forall>i \<in> set (positions s a). \<forall>j \<in> set (positions s b).
          (a = b \<and> i = j) \<or> i + length a \<le> j \<or> j + length b \<le> i)"

definition clearOfTokens :: "string \<Rightarrow> string \<Rightarrow> bool" where
  "clearOfTokens s u =
     (\<exists>i \<in> set (positions s u). \<forall>b \<in> set tokens. \<forall>j \<in> set (positions s b).
        i + length u \<le> j \<or> j + length b \<le> i)"


section \<open>A concrete run\<close>

text \<open>
  The tool is installed in \<open>/opt/parkme\<close>, the working directory is \<open>/w\<close>, and
  \<open>/w/park-me-app\<close> is there already with a file in it.
\<close>

definition exampleFs :: fs where
  "exampleFs =
     [([], Dir), ([''w''], Dir), ([''w'', ''park-me-app''], Dir),
      ([''w'', ''park-me-app'', ''old.txt''], File ''old''),
      ([''opt''], Dir), ([''opt'', ''parkme''], Dir), ([''opt'', ''parkme'', ''bin''], Dir),
      ([''opt'', ''parkme'', ''templates''], Dir), ([''opt'', ''parkme'', ''assets''], Dir),
      ([''opt'', ''parkme'', ''templates'', ''users.json''], File ''[1]''),
      ([''opt'', ''parkme'', ''templates'', ''bookings.json''], File ''[2]''),
      ([''opt'', ''parkme'', ''templates'', ''transactions.json''], File ''[3]''),
      ([''opt'', ''parkme'', ''templates'', ''parkingSlots.json''], File ''[4]''),
      ([''opt'', ''parkme'', ''assets'', ''config.properties.template''],
       File ''u=%%user.file.path%%'')]"

definition exampleEnv :: env where
  "exampleEnv =
     \<lparr>processCwd = ''/w'', dirname = ''/opt/parkme/bin'', nameAnswer = [],
      overwriteAnswer = True, cloneOutcome = Inr [([''pom.xml''], File ''<project/>'')],
      npmOutcome = Inr [], isWindows = False, catalinaOutcome = Inl ''command not found'',
      utf8Text = (\<lambda>bytes. bytes)\<rparr>"

definition exampleTemplate :: string where
  "exampleTemplate = ''s=%%slots.file.path%%;m=%%mode%%''"

section \<open>Properties of the pipeline\<close>

lemma seq_assoc: "seq (seq f g) h = seq f (seq g h)"
  by (rule ext) (simp add: seq_def split: prod.splits option.splits)

lemma main_after_install: "main ev = seq (beforeTomcat ev) (seq (tomcatStep ev) (doneStep ev))"
  by (simp add: main_def provision_def beforeTomcat_def seq_assoc)

lemma tomcat_done:
  "seq (tomcatStep ev) (doneStep ev) w =
     (None, emit (Log (nextSteps ev)) (emit (Log successText) (snd (tomcatStep ev w))))"
  by (simp add: seq_def tomcatStep_def doneStep_def Let_def split: sum.splits)


lemma console_emit: "console (emit m w) = console w @ [m]"
  by (simp add: emit_def)

text \<open>
  C8.  The prerequisite check never exits: whenever the steps before it have not
  exited, the run ends normally with exit code 0, the check leaves the file system
  alone, and the last two messages are \<open>Setup completed successfully!\<close> and the next
  steps.  When the version command fails, the run prints, after the steps before:
  the headline of the check, the failure indicator \<open>Tomcat is not installed.\<close>, the
  advice \<open>Please install Tomcat to run the application.\<close> with the link
  \<open>https://tomcat.apache.org/download-90.cgi\<close>, and then the success message and the
  next steps.  When the command succeeds, the indicator is \<open>Tomcat is installed.\<close>
  and there is no advice.
\<close>

theorem tomcat_check_never_aborts:
  assumes "fst (beforeTomcat ev w) = None"
  shows "fst (tomcatStep ev (snd (beforeTomcat ev w))) = None
    \<and> fst (main ev w) = None \<and> exitCode (main ev w) = 0
    \<and> files (snd (main ev w)) = files (snd (beforeTomcat ev w))
    \<and> (\<exists>pre. console (snd (main ev w)) =
          pre @ [Log (CHR 0x0A # ''Setup completed successfully!''), Log (nextSteps ev)])
    \<and> (\<forall>e. catalinaOutcome ev = Inl e \<longrightarrow>
          console (snd (main ev w)) =
            console (snd (beforeTomcat ev w))
              @ [Log [CHR 0x0A], Step ''Checking for Tomcat...'',
                 SpinnerStart ''Checking for Tomcat...'',
                 SpinnerFail ''Tomcat is not installed.'',
                 Log (''Please install Tomcat to run the application.'' @ [CHR 0x0A]
                        @ ''https://tomcat.apache.org/download-90.cgi''),
                 Log (CHR 0x0A # ''Setup completed successfully!''), Log (nextSteps ev)])
    \<and> (\<forall>u. catalinaOutcome ev = Inr u \<longrightarrow>
          console (snd (main ev w)) =
            console (snd (beforeTomcat ev w))
              @ [Log [CHR 0x0A], Step ''Checking for Tomcat...'',
                 SpinnerStart ''Checking for Tomcat...'',
                 SpinnerSucceed ''Tomcat is installed.'',
                 Log (CHR 0x0A # ''Setup completed successfully!''), Log (nextSteps ev)])"
proof -
  obtain w1 where b: "beforeTomcat ev w = (None, w1)"
    using assms by (cases "beforeTomcat ev w") auto
  have m: "main ev w =
      (None, emit (Log (nextSteps ev)) (emit (Log successText) (snd (tomcatStep ev w1))))"
    by (simp add: main_after_install seq_def [of "beforeTomcat ev"] b tomcat_done)
  have t: "fst (tomcatStep ev w1) = None"
    by (simp add: tomcatStep_def Let_def split: sum.splits)
  have f: "files (snd (tomcatStep ev w1)) = files w1"
    by (simp add: tomcatStep_def Let_def emit_def split: sum.splits)
  have bad: "console (snd (tomcatStep ev w1)) =
      console w1 @ [Log [CHR 0x0A], Step ''Checking for Tomcat...'',
        SpinnerStart ''Checking for Tomcat...'', SpinnerFail ''Tomcat is not installed.'',
        Log (''Please install Tomcat to run the application.'' @ [CHR 0x0A]
               @ ''https://tomcat.apache.org/download-90.cgi'')]"
    if "catalinaOutcome ev = Inl e" for e
    using that by (simp add: tomcatStep_def Let_def console_emit tomcatAdvice_def nl_def)
  have good: "console (snd (tomcatStep ev w1)) =
      console w1 @ [Log [CHR 0x0A], Step ''Checking for Tomcat...'',
        SpinnerStart ''Checking for Tomcat...'', SpinnerSucceed ''Tomcat is installed.'']"
    if "catalinaOutcome ev = Inr u" for u
    using that by (simp add: tomcatStep_def Let_def console_emit nl_def)
  have c: "console (snd (main ev w)) = console (snd (tomcatStep ev w1))
      @ [Log (CHR 0x0A # ''Setup completed successfully!''), Log (nextSteps ev)]"
    by (simp add: m console_emit successText_def nl_def)
  have r1: "fst (tomcatStep ev (snd (beforeTomcat ev w))) = None" using t by (simp add: b)
  have r2: "fst (main ev w) = None" and r3: "exitCode (main ev w) = 0"
    by (simp_all add: m exitCode_def)
  have r4: "files (snd (main ev w)) = files (snd (beforeTomcat ev w))"
    using f by (simp add: m b emit_def)
  have r5: "\<exists>pre. console (snd (main ev w)) =
          pre @ [Log (CHR 0x0A # ''Setup completed successfully!''), Log (nextSteps ev)]"
    using c by blast
  have r6: "console (snd (main ev w)) =
            console (snd (beforeTomcat ev w))
              @ [Log [CHR 0x0A], Step ''Checking for Tomcat...'',
                 SpinnerStart ''Checking for Tomcat...'',
                 SpinnerFail ''Tomcat is not installed.'',
                 Log (''Please install Tomcat to run the application.'' @ [CHR 0x0A]
                        @ ''https://tomcat.apache.org/download-90.cgi''),
                 Log (CHR 0x0A # ''Setup completed successfully!''), Log (nextSteps ev)]"
    if "catalinaOutcome ev = Inl e" for e
    unfolding c bad [OF that] by (simp add: b)
  have r7: "console (snd (main ev w)) =
            console (snd (beforeTomcat ev w))
              @ [Log [CHR 0x0A], Step ''Checking for Tomcat...'',
                 SpinnerStart ''Checking for Tomcat...'',
                 SpinnerSucceed ''Tomcat is installed.'',
                 Log (CHR 0x0A # ''Setup completed successfully!''), Log (nextSteps ev)]"
    if "catalinaOutcome ev = Inr u" for u
    unfolding c good [OF that] by (simp add: b)
  from r1 r2 r3 r4 r5 r6 r7 show ?thesis by blast
qed

theorem tomcat_check_never_aborts_witness:
  "fst (beforeTomcat exampleEnv (initialWorld exampleFs)) = None
   \<and> catalinaOutcome exampleEnv = Inl ''command not found''
   \<and> exitCode (main exampleEnv (initialWorld exampleFs)) = 0
   \<and> console (snd (main exampleEnv (initialWorld exampleFs))) =
       console (snd (beforeTomcat exampleEnv (initialWorld exampleFs)))
         @ [Log [CHR 0x0A], Step ''Checking for Tomcat...'',
            SpinnerStart ''Checking for Tomcat...'',
            SpinnerFail ''Tomcat is not installed.'',
            Log (''Please install Tomcat to run the application.'' @ [CHR 0x0A]
                   @ ''https://tomcat.apache.org/download-90.cgi''),
            Log (CHR 0x0A # ''Setup completed successfully!''), Log (nextSteps exampleEnv)]"
proof -
  have h: "fst (beforeTomcat exampleEnv (initialWorld exampleFs)) = None"
    by code_simp
  have c: "catalinaOutcome exampleEnv = Inl ''command not found''"
    by (simp add: exampleEnv_def)
  show ?thesis
    using h c tomcat_check_never_aborts [OF h] by blast
qed

text \<open>
  C4.  When the target directory exists and the overwrite is declined, the process
  exits with code 0, and neither the file system nor the record of file-system
  operations has changed.
\<close>

theorem declined_overwrite_changes_nothing:
  assumes "existsSync (fsPath (processCwd ev) (target ev)) w" and "\<not> overwriteAnswer ev"
  shows "fst (main ev w) = Some 0 \<and> exitCode (main ev w) = 0
     \<and> files (snd (main ev w)) = files w \<and> trace (snd (main ev w)) = trace w"
  using assms
  by (simp add: main_def seq_def inputCollector_def Let_def exitCode_def emit_def existsSync_def)

theorem declined_overwrite_changes_nothing_witness:
  "existsSync (fsPath (processCwd (exampleEnv\<lparr>overwriteAnswer := False\<rparr>))
       (target (exampleEnv\<lparr>overwriteAnswer := False\<rparr>))) (initialWorld exampleFs)
   \<and> \<not> overwriteAnswer (exampleEnv\<lparr>overwriteAnswer := False\<rparr>)
   \<and> exitCode (main (exampleEnv\<lparr>overwriteAnswer := False\<rparr>) (initialWorld exampleFs)) = 0
   \<and> files (snd (main (exampleEnv\<lparr>overwriteAnswer := False\<rparr>) (initialWorld exampleFs)))
       = exampleFs"
proof -
  have h1: "existsSync (fsPath (processCwd (exampleEnv\<lparr>overwriteAnswer := False\<rparr>))
       (target (exampleEnv\<lparr>overwriteAnswer := False\<rparr>))) (initialWorld exampleFs)"
    by code_simp
  have h2: "\<not> overwriteAnswer (exampleEnv\<lparr>overwriteAnswer := False\<rparr>)"
    by simp
  show ?thesis
    using h1 h2 declined_overwrite_changes_nothing [OF h1 h2] by (simp add: initialWorld_def)
qed

section \<open>Properties of the Config Renderer\<close>

text \<open>
  C10.  The replacement text goes through \<open>GetSubstitution\<close>: with the project name
  \<open>$&\<close> in the working directory \<open>/w\<close>, the path of \<open>users.json\<close> contains
  \<open>$&\<close>, the template contains the user token, and the rendered text does not
  contain the path.
\<close>

theorem dollar_pattern_in_path_is_expanded:
  "\<exists>cwd name template.
     contains template userToken
     \<and> contains (dataPath (dataDir (targetDir cwd name)) ''users.json'') [dollar, ampersand]
     \<and> \<not> contains (result template (dataDir (targetDir cwd name)))
           (dataPath (dataDir (targetDir cwd name)) ''users.json'')"
proof (intro exI)
  show "contains ''u=%%user.file.path%%'' userToken
    \<and> contains (dataPath (dataDir (targetDir ''/w'' ''$&'')) ''users.json'') [dollar, ampersand]
    \<and> \<not> contains (result ''u=%%user.file.path%%'' (dataDir (targetDir ''/w'' ''$&'')))
          (dataPath (dataDir (targetDir ''/w'' ''$&'')) ''users.json'')"
    by code_simp
qed

section \<open>Properties of the path functions\<close>

lemma splitSlash_snoc_slash: "splitSlash cur (xs @ [slash]) = splitSlash cur xs @ [[]]"
  by (induction xs arbitrary: cur) simp_all

lemma normalizeSegments_snoc_empty:
  "normalizeSegments a res (segs @ [[]]) = normalizeSegments a res segs"
  by (induction a res segs rule: normalizeSegments.induct) auto

lemma normalizeString_trailing_slash:
  "normalizeString (p @ [slash]) a = normalizeString p a"
  by (simp add: normalizeString_def splitSlash_snoc_slash normalizeSegments_snoc_empty)

lemma promptName_no_slash: "slash \<notin> set name \<Longrightarrow> slash \<notin> set (promptName name)"
  by (simp add: promptName_def slash_def)

lemma promptName_nonempty: "promptName name \<noteq> []"
  by (simp add: promptName_def)

lemma resolve_relative:
  assumes "isAbsolute cwd" and "n \<noteq> []" and "hd n \<noteq> slash"
  shows "path_resolve cwd [cwd, n] = slash # normalizeString (cwd @ slash # n) False"
proof -
  have "resolveLoop [n, cwd, cwd] [] = (cwd @ slash # n) @ [slash]"
    using assms by (simp add: isAbsolute_def)
  moreover have "isAbsolute ((cwd @ slash # n) @ [slash])"
    using assms by (simp add: isAbsolute_def)
  ultimately show ?thesis
    by (simp add: path_resolve_def Let_def normalizeString_trailing_slash del: append_assoc)
qed

lemma join_relative:
  assumes "isAbsolute cwd" and "n \<noteq> []" and "last n \<noteq> slash"
  shows "path_join [cwd, n] = slash # normalizeString (cwd @ slash # n) False"
proof -
  have "cwd \<noteq> []" using assms by (simp add: isAbsolute_def)
  moreover have "isAbsolute (cwd @ slash # n)" using assms by (simp add: isAbsolute_def)
  ultimately show ?thesis
    using assms by (simp add: path_join_def normalize_def Let_def slash_def)
qed

lemma splitSlash_slash: "splitSlash cur (a @ slash # b) = splitSlash cur a @ splitSlash [] b"
  by (induction a arbitrary: cur) simp_all

lemma splitSlash_noslash: "slash \<notin> set x \<Longrightarrow> splitSlash cur x = [rev cur @ x]"
  by (induction x arbitrary: cur) auto

lemma splitSlash_joinSlash:
  "S \<noteq> [] \<Longrightarrow> \<forall>s \<in> set S. slash \<notin> set s \<Longrightarrow> splitSlash [] (joinSlash S) = S"
  by (induction S rule: joinSlash.induct) (simp_all add: splitSlash_slash splitSlash_noslash)

lemma splitSlash_slashfree:
  "slash \<notin> set cur \<Longrightarrow> s \<in> set (splitSlash cur x) \<Longrightarrow> slash \<notin> set s"
proof (induction x arbitrary: cur)
  case Nil
  then show ?case by auto
next
  case (Cons c x)
  show ?case
  proof (cases "c = slash")
    case True
    with Cons.prems have "s = rev cur \<or> s \<in> set (splitSlash [] x)" by simp
    then show ?thesis using Cons.IH [of "[]"] Cons.prems(1) by auto
  next
    case False
    with Cons.prems have "s \<in> set (splitSlash (c # cur) x)" by simp
    then show ?thesis using Cons.IH [of "c # cur"] Cons.prems(1) False by auto
  qed
qed

lemma normalizeSegments_append:
  "normalizeSegments a res (xs @ ys) = normalizeSegments a (rev (normalizeSegments a res xs)) ys"
  by (induction a res xs rule: normalizeSegments.induct) auto

lemma normalizeSegments_clean:
  "\<forall>s \<in> set S. cleanSegment s \<Longrightarrow> normalizeSegments a res S = rev res @ S"
  by (induction S arbitrary: res) (simp_all add: cleanSegment_def)

lemma normalizeSegments_member:
  "x \<in> set (normalizeSegments False res segs) \<Longrightarrow>
     x \<in> set res \<or> (x \<in> set segs \<and> x \<noteq> [] \<and> x \<noteq> ''.'' \<and> x \<noteq> ''..'')"
proof (induction segs arbitrary: res)
  case Nil
  then show ?case by simp
next
  case (Cons seg segs)
  show ?case
  proof (cases "seg = [] \<or> seg = ''.''")
    case True
    with Cons.prems have "x \<in> set (normalizeSegments False res segs)" by auto
    from Cons.IH [OF this] show ?thesis by auto
  next
    case False
    note nf = this
    show ?thesis
    proof (cases "seg = ''..''")
      case True
      show ?thesis
      proof (cases "res \<noteq> [] \<and> hd res \<noteq> ''..''")
        case True
        with \<open>seg = ''..''\<close> Cons.prems have "x \<in> set (normalizeSegments False (tl res) segs)"
          by simp
        from Cons.IH [OF this] show ?thesis using True by (auto dest: list.set_sel(2))
      next
        case False
        with \<open>seg = ''..''\<close> Cons.prems have "x \<in> set (normalizeSegments False res segs)"
          by auto
        from Cons.IH [OF this] show ?thesis by auto
      qed
    next
      case False
      with nf Cons.prems have "x \<in> set (normalizeSegments False (seg # res) segs)" by simp
      from Cons.IH [OF this] nf False show ?thesis by auto
    qed
  qed
qed

lemma normalizeSegments_all_clean:
  assumes "\<And>s. s \<in> set segs \<Longrightarrow> slash \<notin> set s"
  shows "\<forall>s \<in> set (normalizeSegments False [] segs). cleanSegment s"
  using normalizeSegments_member [of _ "[]" segs] assms by (auto simp add: cleanSegment_def)


lemma resolve_absolute:
  assumes "isAbsolute p"
  shows "path_resolve cwd [p] = canon (normalizeSegments False [] (splitSlash [] p))"
proof -
  have "resolveLoop [p, cwd] [] = p @ [slash]"
    using assms by (simp add: isAbsolute_def)
  moreover have "isAbsolute (p @ [slash])"
    using assms by (simp add: isAbsolute_def)
  ultimately show ?thesis
    by (simp add: path_resolve_def Let_def canon_def normalizeString_def
        splitSlash_snoc_slash normalizeSegments_snoc_empty)
qed

lemma resolve_is_canon:
  assumes "isAbsolute cwd"
  shows "\<exists>S. (\<forall>s \<in> set S. cleanSegment s) \<and> path_resolve cwd [cwd, n] = canon S"
proof -
  obtain R where R: "resolveLoop [n, cwd, cwd] [] = R @ [slash]" and a: "isAbsolute (R @ [slash])"
    using assms by (cases "n = []"; cases "isAbsolute n") (auto simp add: isAbsolute_def)
  let ?S = "normalizeSegments False [] (splitSlash [] R)"
  have "path_resolve cwd [cwd, n] = canon ?S"
    using R a by (simp add: path_resolve_def Let_def canon_def normalizeString_def
        splitSlash_snoc_slash normalizeSegments_snoc_empty)
  moreover have "\<forall>s \<in> set ?S. cleanSegment s"
    by (rule normalizeSegments_all_clean) (rule splitSlash_slashfree [of "[]"], simp_all)
  ultimately show ?thesis by blast
qed

lemma split_canon:
  assumes "\<forall>s \<in> set S. cleanSegment s"
  shows "normalizeSegments False [] (splitSlash [] (canon S)) = S"
proof (cases "S = []")
  case True
  then show ?thesis by (simp add: canon_def)
next
  case False
  moreover have "\<forall>s \<in> set S. slash \<notin> set s"
    using assms by (simp add: cleanSegment_def)
  ultimately have "splitSlash [] (canon S) = [] # S"
    by (simp add: canon_def splitSlash_joinSlash)
  then show ?thesis
    using assms by (simp add: normalizeSegments_clean)
qed

lemma fsPath_canon:
  assumes "\<forall>s \<in> set S. cleanSegment s"
  shows "fsPath cwd (canon S) = S"
proof -
  have "isAbsolute (canon S)" by (simp add: isAbsolute_def canon_def)
  then have r: "path_resolve cwd [canon S] = canon S"
    using assms by (simp add: resolve_absolute split_canon)
  have "segments (canon S) = S"
  proof (cases "S = []")
    case True
    then show ?thesis by (simp add: canon_def segments_def)
  next
    case False
    moreover have "\<forall>s \<in> set S. slash \<notin> set s"
      using assms by (simp add: cleanSegment_def)
    ultimately have "splitSlash [] (canon S) = [] # S"
      by (simp add: canon_def splitSlash_joinSlash)
    moreover have "filter (\<lambda>seg. seg \<noteq> []) S = S"
      using assms by (simp add: cleanSegment_def filter_id_conv)
    ultimately show ?thesis by (simp add: segments_def)
  qed
  with r show ?thesis by (simp add: fsPath_def)
qed

lemma joinSlash_Cons: "xs \<noteq> [] \<Longrightarrow> joinSlash (x # xs) = x @ slash # joinSlash xs"
  by (cases xs) simp_all

lemma joinSlash_nonempty: "xs \<noteq> [] \<Longrightarrow> \<forall>s \<in> set xs. s \<noteq> [] \<Longrightarrow> joinSlash xs \<noteq> []"
  by (induction xs rule: joinSlash.induct) simp_all

lemma last_joinSlash:
  "xs \<noteq> [] \<Longrightarrow> \<forall>s \<in> set xs. s \<noteq> [] \<Longrightarrow> last (joinSlash xs) = last (last xs)"
  by (induction xs rule: joinSlash.induct) (simp_all add: joinSlash_nonempty)

lemma join_canon:
  assumes S: "\<forall>s \<in> set S. cleanSegment s" and xs: "\<forall>s \<in> set xs. cleanSegment s"
    and ne: "xs \<noteq> []"
  shows "path_join (canon S # xs) = canon (S @ xs)"
proof -
  let ?p = "canon S @ slash # joinSlash xs"
  have nonempty: "\<forall>s \<in> set xs. s \<noteq> []" and noslash: "\<forall>s \<in> set xs. slash \<notin> set s"
    using xs by (simp_all add: cleanSegment_def)
  have f: "filter (\<lambda>a. a \<noteq> []) (canon S # xs) = canon S # xs"
    using nonempty by (simp add: canon_def filter_id_conv)
  have j: "joinSlash (canon S # xs) = ?p"
    using ne by (simp add: joinSlash_Cons)
  have abs: "isAbsolute ?p" by (simp add: isAbsolute_def canon_def)
  have "last ?p = last (last xs)"
    using ne nonempty by (simp add: last_joinSlash joinSlash_nonempty)
  moreover have "last xs \<in> set xs" using ne by simp
  ultimately have l: "last ?p \<noteq> slash"
    using noslash nonempty by (metis last_in_set)
  have q: "normalizeString ?p False = joinSlash (S @ xs)"
    using S xs ne noslash
    by (simp add: normalizeString_def splitSlash_slash normalizeSegments_append split_canon
        splitSlash_joinSlash normalizeSegments_clean)
  have "S @ xs \<noteq> []" using ne by simp
  moreover have "\<forall>s \<in> set (S @ xs). s \<noteq> []"
    using S xs by (auto simp add: cleanSegment_def)
  ultimately have qne: "joinSlash (S @ xs) \<noteq> []"
    by (rule joinSlash_nonempty)
  have "normalize ?p = canon (S @ xs)"
    using abs l q qne by (simp add: normalize_def Let_def canon_def)
  moreover have "path_join (canon S # xs) = normalize ?p"
    unfolding path_join_def Let_def f j by simp
  ultimately show ?thesis by simp
qed

lemma run_paths:
  assumes "isAbsolute (processCwd ev)"
  shows "(\<forall>s \<in> set (fsTarget ev). cleanSegment s)
    \<and> target ev = canon (fsTarget ev)
    \<and> dataDir (target ev) = canon (fsTarget ev @ [''data''])
    \<and> fsApp ev = fsTarget ev @ [''app'']
    \<and> fsData ev = fsTarget ev @ [''data'']
    \<and> (\<forall>f. cleanSegment f \<longrightarrow> fsDataFile ev f = fsTarget ev @ [''data'', f])
    \<and> fsConfig ev =
          fsTarget ev @ [''app'', ''src'', ''main'', ''resources'', ''config.properties'']"
proof -
  obtain S where S: "\<forall>s \<in> set S. cleanSegment s" and t: "target ev = canon S"
    using resolve_is_canon [OF assms] by (auto simp add: target_def targetDir_def)
  have T: "fsTarget ev = S"
    using S by (simp add: fsTarget_def t fsPath_canon)
  have c1: "\<forall>s \<in> set [''app'']. cleanSegment s" "\<forall>s \<in> set [''data'']. cleanSegment s"
    by (simp_all add: cleanSegment_def slash_def)
  have a: "appDir (target ev) = canon (S @ [''app''])"
    using join_canon [OF S c1(1)] by (simp add: appDir_def t)
  have d: "dataDir (target ev) = canon (S @ [''data''])"
    using join_canon [OF S c1(2)] by (simp add: dataDir_def t)
  have Sa: "\<forall>s \<in> set (S @ [''app'']). cleanSegment s"
    and Sd: "\<forall>s \<in> set (S @ [''data'']). cleanSegment s"
    using S c1 by auto
  have A: "fsApp ev = S @ [''app'']"
    using Sa by (simp add: fsApp_def a fsPath_canon)
  have D: "fsData ev = S @ [''data'']"
    using Sd by (simp add: fsData_def d fsPath_canon)
  have F: "fsDataFile ev f = S @ [''data'', f]" if f: "cleanSegment f" for f
  proof -
    have "path_join [canon (S @ [''data'']), f] = canon ((S @ [''data'']) @ [f])"
      by (rule join_canon [OF Sd]) (simp_all add: f)
    moreover have "\<forall>s \<in> set ((S @ [''data'']) @ [f]). cleanSegment s"
      using Sd f by auto
    ultimately show ?thesis
      by (simp add: fsDataFile_def d fsPath_canon)
  qed
  let ?rest = "[''src'', ''main'', ''resources'', ''config.properties'']"
  have cr: "\<forall>s \<in> set ?rest. cleanSegment s"
    by (simp add: cleanSegment_def slash_def)
  have "configPath (canon (S @ [''app''])) = canon ((S @ [''app'']) @ ?rest)"
    unfolding configPath_def by (rule join_canon [OF Sa cr]) simp
  moreover have "\<forall>s \<in> set ((S @ [''app'']) @ ?rest). cleanSegment s"
    using Sa cr by auto
  ultimately have C: "fsConfig ev = (S @ [''app'']) @ ?rest"
    by (simp add: fsConfig_def a fsPath_canon del: append_assoc)
  show ?thesis
    using S t d A D F C by (simp add: T)
qed

text \<open>
  C9.  For a working directory that is absolute (as \<open>process.cwd()\<close> is) and an
  answer to the name prompt without a slash, the target directory is
  \<open>path.join\<close> of the working directory and the project name, where the project
  name of an empty answer is \<open>park-me-app\<close>.
\<close>

theorem targetDir_is_cwd_joined_with_name:
  assumes "isAbsolute cwd" and "slash \<notin> set name"
  shows "targetDir cwd (promptName name) = path_join [cwd, promptName name]
     \<and> promptName [] = ''park-me-app''"
proof -
  let ?n = "promptName name"
  have ne: "?n \<noteq> []" by (rule promptName_nonempty)
  have ns: "slash \<notin> set ?n" using assms(2) by (rule promptName_no_slash)
  have "hd ?n \<noteq> slash" using ne ns by (metis hd_in_set)
  moreover have "last ?n \<noteq> slash" using ne ns by (metis last_in_set)
  ultimately show ?thesis
    using assms(1) ne by (simp add: targetDir_def resolve_relative join_relative promptName_def)
qed

theorem targetDir_is_cwd_joined_with_name_witness:
  "isAbsolute ''/home/dev'' \<and> slash \<notin> set ''garage''
   \<and> targetDir ''/home/dev'' (promptName ''garage'') = ''/home/dev/garage''"
proof -
  have h1: "isAbsolute ''/home/dev''" by code_simp
  have h2: "slash \<notin> set ''garage''" by code_simp
  have j1: "path_join [''/home/dev'', promptName ''garage''] = ''/home/dev/garage''"
    by code_simp
  show ?thesis
    using h1 h2 targetDir_is_cwd_joined_with_name [OF h1 h2] j1 by simp
qed

section \<open>Properties of the file-system steps\<close>

lemma lookup_Cons: "lookup ((p, n) # fs) q = (if q = p then Some n else lookup fs q)"
  by (simp add: lookup_def)

lemma lookup_remove:
  "lookup (files (remove p w)) q = (if prefix p q then None else lookup (files w) q)"
proof -
  have "map_of (filter (\<lambda>(q, n). \<not> prefix p q) fs) q = (if prefix p q then None else map_of fs q)"
    for fs :: fs
    by (induction fs) auto
  then show ?thesis by (simp add: remove_def lookup_def)
qed

lemma emit_simps [simp]:
  "files (emit m w) = files w" "trace (emit m w) = trace w" "console (emit m w) = console w @ [m]"
  by (simp_all add: emit_def)

lemma worldOf_simps [simp]: "worldOf (Inr w) = w" "worldOf (Inl (e, w)) = w"
  by (simp_all add: worldOf_def)

lemma worldOf_thenDo:
  "worldOf (thenDo r f) = (case r of Inl ew \<Rightarrow> snd ew | Inr w \<Rightarrow> worldOf (f w))"
  by (simp add: thenDo_def worldOf_def split: sum.splits)

lemma ensureDirs_lookup:
  "lookup (files (worldOf (ensureDirs ps w))) q = lookup (files w) q
   \<or> (q \<in> set ps \<and> lookup (files w) q = None
        \<and> lookup (files (worldOf (ensureDirs ps w))) q = Some Dir)"
proof (induction ps arbitrary: w)
  case Nil
  then show ?case by simp
next
  case (Cons p ps)
  show ?case
  proof (cases "lookup (files w) p")
    case None
    let ?w1 = "w\<lparr>files := (p, Dir) # files w, trace := trace w @ [MadeDir p]\<rparr>"
    have e: "ensureDirs (p # ps) w = ensureDirs ps ?w1" using None by simp
    from Cons.IH [of ?w1] show ?thesis
      unfolding e using None by (auto simp add: lookup_Cons split: if_splits)
  next
    case (Some n)
    then show ?thesis using Cons.IH [of w] by (cases n) auto
  qed
qed


lemma ensureDirs_trace:
  "\<exists>added. trace (worldOf (ensureDirs ps w)) = trace w @ map MadeDir added \<and> set added \<subseteq> set ps"
proof (induction ps arbitrary: w)
  case Nil
  then show ?case by simp
next
  case (Cons p ps)
  show ?case
  proof (cases "lookup (files w) p")
    case None
    let ?w1 = "w\<lparr>files := (p, Dir) # files w, trace := trace w @ [MadeDir p]\<rparr>"
    have e: "ensureDirs (p # ps) w = ensureDirs ps ?w1" using None by simp
    from Cons.IH [of ?w1] obtain added where
      "trace (worldOf (ensureDirs ps ?w1)) = trace ?w1 @ map MadeDir added" "set added \<subseteq> set ps"
      by blast
    then have "trace (worldOf (ensureDirs (p # ps) w)) = trace w @ map MadeDir (p # added)
        \<and> set (p # added) \<subseteq> set (p # ps)"
      unfolding e by auto
    then show ?thesis by blast
  next
    case (Some n)
    show ?thesis
    proof (cases n)
      case (File c)
      then have "trace (worldOf (ensureDirs (p # ps) w)) = trace w @ map MadeDir []"
        using Some by simp
      then show ?thesis by (metis empty_subsetI list.set(1))
    next
      case Dir
      then have e: "ensureDirs (p # ps) w = ensureDirs ps w" using Some by simp
      from Cons.IH [of w] show ?thesis unfolding e by auto
    qed
  qed
qed

lemma ensureDirs_console: "console (worldOf (ensureDirs ps w)) = console w"
proof (induction ps arbitrary: w)
  case Nil
  then show ?case by simp
next
  case (Cons p ps)
  show ?case
  proof (cases "lookup (files w) p")
    case None
    then show ?thesis using Cons.IH by simp
  next
    case (Some n)
    then show ?thesis using Cons.IH by (cases n) simp_all
  qed
qed

lemma tryOrExit_world [simp]:
  "files (snd (tryOrExit s f r)) = files (worldOf r)"
  "trace (snd (tryOrExit s f r)) = trace (worldOf r)"
  by (auto simp add: tryOrExit_def split: sum.splits)

lemma tryOrExit_fst: "fst (tryOrExit s f r) = (case r of Inl ew \<Rightarrow> Some 1 | Inr w \<Rightarrow> None)"
  by (auto simp add: tryOrExit_def split: sum.splits)

lemma tryOrExit_console:
  "console (snd (tryOrExit s f r)) =
     (case r of Inl ew \<Rightarrow> console (snd ew) @ [SpinnerFail f, Error (fst ew)]
      | Inr w \<Rightarrow> console w @ [SpinnerSucceed s])"
  by (auto simp add: tryOrExit_def split: sum.splits)

lemma externalWrites_lookup:
  "\<not> prefix base q \<Longrightarrow> lookup (files (externalWrites base tree w)) q = lookup (files w) q"
proof -
  assume n: "\<not> prefix base q"
  have "map_of (map (\<lambda>e. (base @ fst e, snd e)) tree) q = None"
    using n by (auto simp add: map_of_eq_None_iff image_iff)
  then show ?thesis
    by (simp add: externalWrites_def lookup_def map_add_def)
qed

lemma externalWrites_trace: "prefix (trace w) (trace (externalWrites base tree w))"
  by (simp add: externalWrites_def)

lemma ensureDir_lookup:
  "lookup (files (worldOf (ensureDir p w))) q = lookup (files w) q
   \<or> (prefix q p \<and> lookup (files w) q = None
        \<and> lookup (files (worldOf (ensureDir p w))) q = Some Dir)"
  using ensureDirs_lookup [of "prefixes p" w q] by (auto simp add: ensureDir_def)


lemma ensureDir_trace:
  "\<exists>added. trace (worldOf (ensureDir p w)) = trace w @ map MadeDir added
      \<and> (\<forall>q \<in> set added. prefix q p)"
proof -
  obtain added where a: "trace (worldOf (ensureDirs (prefixes p) w)) = trace w @ map MadeDir added"
    and b: "set added \<subseteq> set (prefixes p)"
    using ensureDirs_trace [of "prefixes p" w] by blast
  from b have "\<forall>q \<in> set added. prefix q p" by (auto simp add: in_set_prefixes)
  with a show ?thesis unfolding ensureDir_def by blast
qed

lemma ensureDir_console: "console (worldOf (ensureDir p w)) = console w"
  by (simp add: ensureDir_def ensureDirs_console)

lemma cloneRepo_world:
  "worldOf (thenDo (ensureDir a w) (gitClone ev a)) =
     (case ensureDir a w of
        Inl ew \<Rightarrow> snd ew
      | Inr x \<Rightarrow> (case cloneOutcome ev of Inl e \<Rightarrow> x | Inr tree \<Rightarrow> externalWrites a tree x))"
  by (simp add: worldOf_thenDo gitClone_def split: sum.splits)

lemma simpleGit_emit [simp]: "simpleGit ev (emit m w) = simpleGit ev w"
  by (simp add: simpleGit_def)

lemma emit_update:
  "emit m (w\<lparr>files := f, trace := t\<rparr>) = (emit m w)\<lparr>files := f, trace := t\<rparr>"
  by (simp add: emit_def)

lemma ensureDirs_emit:
  "ensureDirs ps (emit m w) =
     (case ensureDirs ps w of Inl ew \<Rightarrow> Inl (fst ew, emit m (snd ew)) | Inr x \<Rightarrow> Inr (emit m x))"
proof (induction ps arbitrary: w)
  case Nil
  then show ?case by simp
next
  case (Cons p ps)
  show ?case
  proof (cases "lookup (files w) p")
    case None
    let ?w1 = "w\<lparr>files := (p, Dir) # files w, trace := trace w @ [MadeDir p]\<rparr>"
    have "ensureDirs (p # ps) (emit m w) = ensureDirs ps (emit m ?w1)"
      using None by (simp add: emit_update)
    moreover have "ensureDirs (p # ps) w = ensureDirs ps ?w1" using None by simp
    ultimately show ?thesis using Cons.IH [of ?w1] by simp
  next
    case (Some n)
    then show ?thesis using Cons.IH [of w] by (cases n) simp_all
  qed
qed

lemma ensureDir_emit:
  "ensureDir p (emit m w) =
     (case ensureDir p w of Inl ew \<Rightarrow> Inl (fst ew, emit m (snd ew)) | Inr x \<Rightarrow> Inr (emit m x))"
  by (simp add: ensureDir_def ensureDirs_emit)

lemma cloneStep_uncaught:
  "simpleGit ev w = Inl e \<Longrightarrow>
   cloneStep ev w = (Some 1, emit (Uncaught e) (emit (Step ''Cloning the repository...'') w))"
  by (simp add: cloneStep_def cloneRepo_def)

lemma cloneStep_try:
  "simpleGit ev w = Inr git \<Longrightarrow>
   cloneStep ev w =
     tryOrExit ''Cloning completed.'' ''Failed to clone repository.''
       (thenDo (ensureDir (fsApp ev) (emit (SpinnerStart ''Cloning repository...'')
                  (emit (Step ''Cloning the repository...'') w)))
          (gitClone ev (fsApp ev)))"
  by (simp add: cloneStep_def cloneRepo_def cloneTry_def fsApp_def)

lemma cloneStep_fst:
  "fst (cloneStep ev w) = None \<or> fst (cloneStep ev w) = Some 1"
proof (cases "simpleGit ev w")
  case (Inl e)
  then show ?thesis by (simp add: cloneStep_uncaught)
next
  case (Inr git)
  then show ?thesis by (simp add: cloneStep_try tryOrExit_fst split: sum.splits)
qed

lemma cloneStep_fails: "cloneOutcome ev = Inl e \<Longrightarrow> fst (cloneStep ev w) = Some 1"
proof (cases "simpleGit ev w")
  case (Inl e')
  then show ?thesis by (simp add: cloneStep_uncaught)
next
  case (Inr git)
  assume "cloneOutcome ev = Inl e"
  then show ?thesis
    using Inr by (simp add: cloneStep_try tryOrExit_fst thenDo_def gitClone_def split: sum.splits)
qed

lemma cloneStep_exit_iff: "fst (cloneStep ev w) = Some 1 \<longleftrightarrow> cloneFailure ev w"
proof (cases "simpleGit ev w")
  case (Inl e)
  then show ?thesis by (simp add: cloneStep_uncaught cloneFailure_def)
next
  case (Inr git)
  let ?w1 = "emit (SpinnerStart ''Cloning repository...'') (emit (Step ''Cloning the repository...'') w)"
  have e: "isl (ensureDir (fsApp ev) ?w1) = isl (ensureDir (fsApp ev) w)"
    by (simp add: ensureDir_emit split: sum.splits)
  have "fst (cloneStep ev w) = Some 1
      \<longleftrightarrow> isl (ensureDir (fsApp ev) ?w1) \<or> isl (cloneOutcome ev)"
    using Inr
    by (auto simp add: cloneStep_try tryOrExit_fst thenDo_def gitClone_def split: sum.splits)
  then show ?thesis using Inr by (simp add: cloneFailure_def e)
qed

lemma cloneStep_files:
  assumes "simpleGit ev w = Inr git"
  shows "files (snd (cloneStep ev w)) =
     files (case ensureDir (fsApp ev) (emit (SpinnerStart ''Cloning repository...'')
                   (emit (Step ''Cloning the repository...'') w)) of
        Inl ew \<Rightarrow> snd ew
      | Inr x \<Rightarrow> (case cloneOutcome ev of Inl e \<Rightarrow> x | Inr tree \<Rightarrow> externalWrites (fsApp ev) tree x))"
  by (simp add: cloneStep_try [OF assms] cloneRepo_world)

lemma cloneStep_trace:
  assumes "simpleGit ev w = Inr git"
  shows "trace (snd (cloneStep ev w)) =
     trace (case ensureDir (fsApp ev) (emit (SpinnerStart ''Cloning repository...'')
                   (emit (Step ''Cloning the repository...'') w)) of
        Inl ew \<Rightarrow> snd ew
      | Inr x \<Rightarrow> (case cloneOutcome ev of Inl e \<Rightarrow> x | Inr tree \<Rightarrow> externalWrites (fsApp ev) tree x))"
  by (simp add: cloneStep_try [OF assms] cloneRepo_world)

lemma cloneStep_lookup:
  "lookup (files (snd (cloneStep ev w))) q = lookup (files w) q
   \<or> (fst (cloneStep ev w) = None \<and> prefix (fsApp ev) q)
   \<or> (prefix q (fsApp ev) \<and> lookup (files w) q = None
        \<and> lookup (files (snd (cloneStep ev w))) q = Some Dir)"
proof (cases "simpleGit ev w")
  case (Inl e)
  then show ?thesis by (simp add: cloneStep_uncaught)
next
  case (Inr git)
  note g = this
  let ?w0 = "emit (SpinnerStart ''Cloning repository...'') (emit (Step ''Cloning the repository...'') w)"
  let ?a = "fsApp ev"
  have f0: "files ?w0 = files w" by simp
  show ?thesis
  proof (cases "ensureDir ?a ?w0")
    case (Inl ew)
    then have "files (snd (cloneStep ev w)) = files (worldOf (ensureDir ?a ?w0))"
      by (simp add: cloneStep_files [OF g] worldOf_def)
    then show ?thesis using ensureDir_lookup [of ?a ?w0 q] f0 by auto
  next
    case (Inr x)
    note x = this
    show ?thesis
    proof (cases "cloneOutcome ev")
      case (Inl e)
      then have "files (snd (cloneStep ev w)) = files (worldOf (ensureDir ?a ?w0))"
        using x by (simp add: cloneStep_files [OF g])
      then show ?thesis using ensureDir_lookup [of ?a ?w0 q] f0 by auto
    next
      case (Inr tree)
      then have fs: "files (snd (cloneStep ev w)) = files (externalWrites ?a tree x)"
        using x by (simp add: cloneStep_files [OF g])
      have ok: "fst (cloneStep ev w) = None"
        using x Inr by (simp add: cloneStep_try [OF g] tryOrExit_fst thenDo_def gitClone_def)
      show ?thesis
      proof (cases "prefix ?a q")
        case True
        then show ?thesis using ok by simp
      next
        case False
        then have "lookup (files (snd (cloneStep ev w))) q = lookup (files x) q"
          by (simp add: fs externalWrites_lookup)
        then show ?thesis using ensureDir_lookup [of ?a ?w0 q] f0 x by auto
      qed
    qed
  qed
qed

lemma cloneStep_failure_trace:
  assumes "fst (cloneStep ev w) \<noteq> None"
  shows "\<exists>added. trace (snd (cloneStep ev w)) = trace w @ map MadeDir added
      \<and> (\<forall>q \<in> set added. prefix q (fsApp ev))"
proof (cases "simpleGit ev w")
  case (Inl e)
  then have "trace (snd (cloneStep ev w)) = trace w @ map MadeDir []"
    by (simp add: cloneStep_uncaught)
  then show ?thesis by (metis empty_iff list.set(1))
next
  case (Inr git)
  note g = this
  let ?w0 = "emit (SpinnerStart ''Cloning repository...'') (emit (Step ''Cloning the repository...'') w)"
  let ?a = "fsApp ev"
  have "fst (cloneStep ev w) = (case ensureDir ?a ?w0 of Inl ew \<Rightarrow> Some 1
      | Inr x \<Rightarrow> (case cloneOutcome ev of Inl e \<Rightarrow> Some 1 | Inr tree \<Rightarrow> None))"
    by (simp add: cloneStep_try [OF g] tryOrExit_fst thenDo_def gitClone_def split: sum.splits)
  with assms have "trace (snd (cloneStep ev w)) = trace (worldOf (ensureDir ?a ?w0))"
    by (auto simp add: cloneStep_trace [OF g] worldOf_def split: sum.splits)
  then show ?thesis using ensureDir_trace [of ?a ?w0] by simp
qed

text \<open>What a failing clone step prints, by the place of the failure.\<close>

lemma cloneStep_console_uncaught:
  "simpleGit ev w = Inl e \<Longrightarrow>
   console (snd (cloneStep ev w)) =
     console w @ [Step ''Cloning the repository...'', Uncaught e]"
  by (simp add: cloneStep_uncaught)

lemma cloneStep_console_ensureDir:
  assumes "simpleGit ev w = Inr git" and "ensureDir (fsApp ev) w = Inl (e, x)"
  shows "console (snd (cloneStep ev w)) =
     console w @ [Step ''Cloning the repository...'', SpinnerStart ''Cloning repository...'',
                  SpinnerFail ''Failed to clone repository.'', Error e]"
proof -
  let ?w0 = "emit (SpinnerStart ''Cloning repository...'') (emit (Step ''Cloning the repository...'') w)"
  have "console x = console (worldOf (ensureDir (fsApp ev) w))" using assms(2) by simp
  then have cx: "console x = console w" by (simp only: ensureDir_console)
  have "ensureDir (fsApp ev) ?w0 = Inl (e, emit (SpinnerStart ''Cloning repository...'')
      (emit (Step ''Cloning the repository...'') x))"
    using assms(2) by (simp add: ensureDir_emit)
  then show ?thesis
    by (simp add: cloneStep_try [OF assms(1)] thenDo_def tryOrExit_console cx)
qed

lemma cloneStep_console_git:
  assumes "simpleGit ev w = Inr git" and "ensureDir (fsApp ev) w = Inr x"
    and "cloneOutcome ev = Inl e"
  shows "console (snd (cloneStep ev w)) =
     console w @ [Step ''Cloning the repository...'', SpinnerStart ''Cloning repository...'',
                  SpinnerFail ''Failed to clone repository.'', Error e]"
proof -
  let ?w0 = "emit (SpinnerStart ''Cloning repository...'') (emit (Step ''Cloning the repository...'') w)"
  have "console x = console (worldOf (ensureDir (fsApp ev) w))" using assms(2) by simp
  then have cx: "console x = console w" by (simp only: ensureDir_console)
  have "ensureDir (fsApp ev) ?w0 = Inr (emit (SpinnerStart ''Cloning repository...'')
      (emit (Step ''Cloning the repository...'') x))"
    using assms(2) by (simp add: ensureDir_emit)
  then show ?thesis
    using assms(3)
    by (simp add: cloneStep_try [OF assms(1)] thenDo_def gitClone_def tryOrExit_console cx)
qed

lemma cloneStep_failure_console:
  assumes "fst (cloneStep ev w) \<noteq> None"
  shows "\<exists>e. console (snd (cloneStep ev w)) =
       console w @ [Step ''Cloning the repository...'', SpinnerStart ''Cloning repository...'',
                    SpinnerFail ''Failed to clone repository.'', Error e]
     \<or> console (snd (cloneStep ev w)) =
       console w @ [Step ''Cloning the repository...'', Uncaught e]"
proof (cases "simpleGit ev w")
  case (Inl e)
  then show ?thesis using cloneStep_console_uncaught by blast
next
  case (Inr git)
  note g = this
  show ?thesis
  proof (cases "ensureDir (fsApp ev) w")
    case (Inl ew)
    then obtain e x where "ensureDir (fsApp ev) w = Inl (e, x)" by (cases ew) simp
    from cloneStep_console_ensureDir [OF g this] show ?thesis by blast
  next
    case (Inr x)
    note x = this
    show ?thesis
    proof (cases "cloneOutcome ev")
      case (Inl e)
      from cloneStep_console_git [OF g x Inl] show ?thesis by blast
    next
      case (Inr tree)
      have "\<not> cloneFailure ev w" using g x Inr by (simp add: cloneFailure_def)
      then have "fst (cloneStep ev w) \<noteq> Some 1" using cloneStep_exit_iff by blast
      with assms cloneStep_fst [of ev w] show ?thesis by metis
    qed
  qed
qed

lemma wf_absent_below:
  assumes "wf_fs fs" and "lookup fs p = None" and "prefix p q"
  shows "lookup fs q = None"
proof -
  from assms(3) obtain r where q: "q = p @ r" by (auto simp add: prefix_def)
  have "lookup fs (p @ r) = None"
  proof (induction r rule: rev_induct)
    case Nil
    then show ?case using assms(2) by simp
  next
    case (snoc x r)
    show ?case
    proof (rule ccontr)
      assume "lookup fs (p @ r @ [x]) \<noteq> None"
      then obtain n where "map_of fs (p @ r @ [x]) = Some n" by (auto simp add: lookup_def)
      then have "(p @ r @ [x], n) \<in> set fs" by (rule map_of_SomeD)
      with assms(1) have "lookup fs (butlast (p @ r @ [x])) = Some Dir"
        by (fastforce simp add: wf_fs_def)
      then show False using snoc by (simp add: butlast_append)
    qed
  qed
  then show ?thesis by (simp add: q)
qed

lemma inputCollector_cases:
  assumes "fst (inputCollector ev w) = None"
  shows "(existsSync (fsTarget ev) w \<and> overwriteAnswer ev
          \<and> files (snd (inputCollector ev w)) = files (remove (fsTarget ev) w)
          \<and> trace (snd (inputCollector ev w)) = trace w @ [Removed (fsTarget ev)])
       \<or> (\<not> existsSync (fsTarget ev) w
          \<and> files (snd (inputCollector ev w)) = files w
          \<and> trace (snd (inputCollector ev w)) = trace w)"
  using assms
  by (auto simp add: inputCollector_def Let_def fsTarget_def existsSync_def remove_def
      split: if_splits)

lemma inputCollector_fresh:
  assumes "wf_fs (files w)" and "fst (inputCollector ev w) = None" and "prefix (fsTarget ev) q"
  shows "lookup (files (snd (inputCollector ev w))) q = None"
  using inputCollector_cases [OF assms(2)]
proof (elim disjE conjE)
  assume "files (snd (inputCollector ev w)) = files (remove (fsTarget ev) w)"
  then show ?thesis using assms(3) by (simp add: lookup_remove)
next
  assume "\<not> existsSync (fsTarget ev) w" and f: "files (snd (inputCollector ev w)) = files w"
  then have "lookup (files w) (fsTarget ev) = None" by (simp add: existsSync_def)
  from wf_absent_below [OF assms(1) this assms(3)] show ?thesis by (simp add: f)
qed

lemma not_prefix_sibling: "a \<noteq> b \<Longrightarrow> \<not> prefix (S @ a # xs) (S @ [b])"
  by (auto simp add: prefix_def)

text \<open>
  C3.  When the clone step fails (and the run got as far as the clone step), the
  process prints the error and exits with code 1; at that point the data directory
  and the rendered config file do not exist, and the run has neither made the one nor
  written the other.  The step fails in one of three places.  When \<open>simpleGit()\<close>
  throws, nothing catches it: the error is printed after the step's headline, and
  the file system is as the input step left it.  When \<open>ensureDir\<close> or \<open>git clone\<close>
  throws, the \<open>catch\<close> prints the failure indicator and that very error.
\<close>

theorem clone_failure_exits_before_data_and_config:
  assumes abs: "isAbsolute (processCwd ev)" and wf: "wf_fs fs0"
    and reach: "fst (inputCollector ev (initialWorld fs0)) = None"
    and fail: "cloneFailure ev (snd (inputCollector ev (initialWorld fs0)))"
  shows "fst (main ev (initialWorld fs0)) = Some 1
    \<and> exitCode (main ev (initialWorld fs0)) \<noteq> 0
    \<and> (\<exists>pre e'. console (snd (main ev (initialWorld fs0))) =
            pre @ [SpinnerFail ''Failed to clone repository.'', Error e']
          \<or> console (snd (main ev (initialWorld fs0))) = pre @ [Uncaught e'])
    \<and> lookup (files (snd (main ev (initialWorld fs0)))) (fsData ev) = None
    \<and> lookup (files (snd (main ev (initialWorld fs0)))) (fsConfig ev) = None
    \<and> MadeDir (fsData ev) \<notin> set (trace (snd (main ev (initialWorld fs0))))
    \<and> Wrote (fsConfig ev) \<notin> set (trace (snd (main ev (initialWorld fs0))))
    \<and> (\<forall>e. simpleGit ev (snd (inputCollector ev (initialWorld fs0))) = Inl e \<longrightarrow>
          console (snd (main ev (initialWorld fs0))) =
            console (snd (inputCollector ev (initialWorld fs0)))
              @ [Step ''Cloning the repository...'', Uncaught e]
          \<and> files (snd (main ev (initialWorld fs0)))
              = files (snd (inputCollector ev (initialWorld fs0)))
          \<and> trace (snd (main ev (initialWorld fs0)))
              = trace (snd (inputCollector ev (initialWorld fs0))))
    \<and> (\<forall>e x. simpleGit ev (snd (inputCollector ev (initialWorld fs0))) = Inr ()
          \<longrightarrow> ensureDir (fsApp ev) (snd (inputCollector ev (initialWorld fs0))) = Inl (e, x)
          \<longrightarrow> console (snd (main ev (initialWorld fs0))) =
            console (snd (inputCollector ev (initialWorld fs0)))
              @ [Step ''Cloning the repository...'', SpinnerStart ''Cloning repository...'',
                 SpinnerFail ''Failed to clone repository.'', Error e])
    \<and> (\<forall>e x. simpleGit ev (snd (inputCollector ev (initialWorld fs0))) = Inr ()
          \<longrightarrow> ensureDir (fsApp ev) (snd (inputCollector ev (initialWorld fs0))) = Inr x
          \<longrightarrow> cloneOutcome ev = Inl e
          \<longrightarrow> console (snd (main ev (initialWorld fs0))) =
            console (snd (inputCollector ev (initialWorld fs0)))
              @ [Step ''Cloning the repository...'', SpinnerStart ''Cloning repository...'',
                 SpinnerFail ''Failed to clone repository.'', Error e])"
proof -
  let ?w0 = "initialWorld fs0"
  let ?w1 = "snd (inputCollector ev ?w0)"
  let ?w2 = "snd (cloneStep ev ?w1)"
  let ?S = "fsTarget ev"
  obtain w1 where i: "inputCollector ev ?w0 = (None, w1)"
    using reach by (cases "inputCollector ev ?w0") simp
  have c: "fst (cloneStep ev ?w1) = Some 1"
    using fail by (simp only: cloneStep_exit_iff)
  then obtain w2 where c': "cloneStep ev w1 = (Some 1, w2)"
    using i by (cases "cloneStep ev w1") simp
  have "main ev ?w0 = (Some 1, w2)"
    by (simp add: main_def provision_def seq_def i c')
  moreover have "w2 = ?w2" by (simp add: i c')
  ultimately have m: "main ev ?w0 = (Some 1, ?w2)" by simp
  have ne: "fst (cloneStep ev ?w1) \<noteq> None" using c by simp
  note paths = run_paths [OF abs]
  have A: "fsApp ev = ?S @ [''app'']" using paths by blast
  have D: "fsData ev = ?S @ [''data'']" using paths by blast
  have C: "fsConfig ev = ?S @ [''app'', ''src'', ''main'', ''resources'', ''config.properties'']"
    using paths by blast
  have wf0: "wf_fs (files ?w0)" using wf by (simp add: initialWorld_def)
  have d1: "lookup (files ?w1) (fsData ev) = None"
    by (rule inputCollector_fresh [OF wf0 reach]) (simp add: D)
  have c1: "lookup (files ?w1) (fsConfig ev) = None"
    by (rule inputCollector_fresh [OF wf0 reach]) (simp add: C)
  have nd: "\<not> prefix (fsData ev) (fsApp ev)"
    unfolding A D by (rule not_prefix_sibling) simp
  have nc: "\<not> prefix (fsConfig ev) (fsApp ev)"
    unfolding A C by (simp add: prefix_def)
  have d2: "lookup (files ?w2) (fsData ev) = None"
    using cloneStep_lookup [of ev ?w1 "fsData ev"] c d1 nd by auto
  have c2: "lookup (files ?w2) (fsConfig ev) = None"
    using cloneStep_lookup [of ev ?w1 "fsConfig ev"] c c1 nc by auto
  have t1: "trace ?w1 = [] \<or> trace ?w1 = [Removed ?S]"
    using inputCollector_cases [OF reach] by (auto simp add: initialWorld_def)
  obtain added where t2: "trace ?w2 = trace ?w1 @ map MadeDir added"
    and ad: "\<forall>q \<in> set added. prefix q (fsApp ev)"
    using cloneStep_failure_trace [OF ne] by auto
  have e1: "MadeDir (fsData ev) \<notin> set (trace ?w2)"
    using t1 t2 ad nd by auto
  have e2: "Wrote (fsConfig ev) \<notin> set (trace ?w2)"
    using t1 t2 by auto
  from cloneStep_failure_console [OF ne] obtain e' where
    "console ?w2 = (console ?w1 @ [Step ''Cloning the repository...'',
        SpinnerStart ''Cloning repository...'']) @ [SpinnerFail ''Failed to clone repository.'', Error e']
     \<or> console ?w2 = (console ?w1 @ [Step ''Cloning the repository...'']) @ [Uncaught e']"
    by auto
  then have co: "\<exists>pre e'. console ?w2 = pre @ [SpinnerFail ''Failed to clone repository.'', Error e']
      \<or> console ?w2 = pre @ [Uncaught e']"
    by blast
  have u: "console ?w2 = console ?w1 @ [Step ''Cloning the repository...'', Uncaught e]
      \<and> files ?w2 = files ?w1 \<and> trace ?w2 = trace ?w1"
    if "simpleGit ev ?w1 = Inl e" for e
    using that by (simp add: cloneStep_uncaught)
  have en: "console ?w2 = console ?w1 @ [Step ''Cloning the repository...'',
        SpinnerStart ''Cloning repository...'', SpinnerFail ''Failed to clone repository.'', Error e]"
    if "simpleGit ev ?w1 = Inr ()" and "ensureDir (fsApp ev) ?w1 = Inl (e, x)" for e x
    using that by (rule cloneStep_console_ensureDir)
  have gi: "console ?w2 = console ?w1 @ [Step ''Cloning the repository...'',
        SpinnerStart ''Cloning repository...'', SpinnerFail ''Failed to clone repository.'', Error e]"
    if "simpleGit ev ?w1 = Inr ()" and "ensureDir (fsApp ev) ?w1 = Inr x"
      and "cloneOutcome ev = Inl e" for e x
    using that by (rule cloneStep_console_git)
  have r1: "fst (main ev ?w0) = Some 1" and r2: "exitCode (main ev ?w0) \<noteq> 0"
    and r3: "snd (main ev ?w0) = ?w2"
    by (simp_all add: m exitCode_def)
  show ?thesis
    unfolding r3 using r1 r2 co d2 c2 e1 e2 u en gi by blast
qed

theorem clone_failure_exits_before_data_and_config_witness:
  "isAbsolute (processCwd (exampleEnv\<lparr>cloneOutcome := Inl ''unreachable''\<rparr>))
   \<and> wf_fs exampleFs
   \<and> fst (inputCollector (exampleEnv\<lparr>cloneOutcome := Inl ''unreachable''\<rparr>)
          (initialWorld exampleFs)) = None
   \<and> cloneFailure (exampleEnv\<lparr>cloneOutcome := Inl ''unreachable''\<rparr>)
        (snd (inputCollector (exampleEnv\<lparr>cloneOutcome := Inl ''unreachable''\<rparr>)
          (initialWorld exampleFs)))
   \<and> fst (main (exampleEnv\<lparr>cloneOutcome := Inl ''unreachable''\<rparr>) (initialWorld exampleFs))
       = Some 1
   \<and> lookup (files (snd (main (exampleEnv\<lparr>cloneOutcome := Inl ''unreachable''\<rparr>)
          (initialWorld exampleFs))))
        (fsData (exampleEnv\<lparr>cloneOutcome := Inl ''unreachable''\<rparr>)) = None
   \<and> isAbsolute (processCwd (exampleEnv\<lparr>processCwd := ''/w/park-me-app'', nameAnswer := ''.''\<rparr>))
   \<and> fst (inputCollector (exampleEnv\<lparr>processCwd := ''/w/park-me-app'', nameAnswer := ''.''\<rparr>)
          (initialWorld exampleFs)) = None
   \<and> simpleGit (exampleEnv\<lparr>processCwd := ''/w/park-me-app'', nameAnswer := ''.''\<rparr>)
        (snd (inputCollector (exampleEnv\<lparr>processCwd := ''/w/park-me-app'', nameAnswer := ''.''\<rparr>)
          (initialWorld exampleFs)))
       = Inl ''ENOENT: no such file or directory, uv_cwd''
   \<and> fst (main (exampleEnv\<lparr>processCwd := ''/w/park-me-app'', nameAnswer := ''.''\<rparr>)
          (initialWorld exampleFs)) = Some 1
   \<and> trace (snd (main (exampleEnv\<lparr>processCwd := ''/w/park-me-app'', nameAnswer := ''.''\<rparr>)
          (initialWorld exampleFs))) = [Removed [''w'', ''park-me-app'']]"
proof -
  let ?ev = "exampleEnv\<lparr>cloneOutcome := Inl ''unreachable''\<rparr>"
  let ?ev' = "exampleEnv\<lparr>processCwd := ''/w/park-me-app'', nameAnswer := ''.''\<rparr>"
  have h1: "isAbsolute (processCwd ?ev)" by code_simp
  have h2: "wf_fs exampleFs" by code_simp
  have h3: "fst (inputCollector ?ev (initialWorld exampleFs)) = None" by code_simp
  have h4: "cloneFailure ?ev (snd (inputCollector ?ev (initialWorld exampleFs)))"
    by (simp add: cloneFailure_def)
  note a = clone_failure_exits_before_data_and_config [OF h1 h2 h3 h4]
  have k1: "isAbsolute (processCwd ?ev')" by code_simp
  have k3: "fst (inputCollector ?ev' (initialWorld exampleFs)) = None" by code_simp
  have g: "simpleGit ?ev' (snd (inputCollector ?ev' (initialWorld exampleFs)))
      = Inl ''ENOENT: no such file or directory, uv_cwd''"
    by code_simp
  then have k4: "cloneFailure ?ev' (snd (inputCollector ?ev' (initialWorld exampleFs)))"
    by (simp add: cloneFailure_def)
  have t: "trace (snd (inputCollector ?ev' (initialWorld exampleFs)))
      = [Removed [''w'', ''park-me-app'']]"
    by code_simp
  note b = clone_failure_exits_before_data_and_config [OF k1 h2 k3 k4]
  from b g have "trace (snd (main ?ev' (initialWorld exampleFs)))
      = trace (snd (inputCollector ?ev' (initialWorld exampleFs)))"
    by blast
  then have t': "trace (snd (main ?ev' (initialWorld exampleFs))) = [Removed [''w'', ''park-me-app'']]"
    by (simp only: t)
  show ?thesis
    using h1 h2 h3 h4 a k1 k3 g b t' by blast
qed


lemma seq_snd_cases: "snd (seq f g w) = snd (f w) \<or> snd (seq f g w) = snd (g (snd (f w)))"
  by (auto simp add: seq_def split: prod.splits option.splits)

lemma seq_trace:
  assumes "\<And>w. prefix (trace w) (trace (snd (f w)))" and "\<And>w. prefix (trace w) (trace (snd (g w)))"
  shows "prefix (trace w) (trace (snd (seq f g w)))"
  using seq_snd_cases [of f g w] assms(1) [of w] assms(2) [of "snd (f w)"]
  by (auto intro: prefix_order.trans)

lemma thenDo_trace:
  assumes "prefix (trace w) (trace (worldOf r))"
    and "\<And>x. prefix (trace x) (trace (worldOf (f x)))"
  shows "prefix (trace w) (trace (worldOf (thenDo r f)))"
proof (cases r)
  case (Inl ew)
  then show ?thesis using assms(1) by (simp add: thenDo_def)
next
  case (Inr x)
  then show ?thesis using assms(1) assms(2) [of x] by (auto simp add: thenDo_def)
qed

lemma ensureDir_mono: "prefix (trace w) (trace (worldOf (ensureDir p w)))"
  using ensureDir_trace [of p w] by auto

lemma writeFile_mono: "prefix (trace w) (trace (worldOf (writeFile p c w)))"
  by (simp add: writeFile_def)


lemma copyFile_mono: "prefix (trace w) (trace (worldOf (copyFile src dest w)))"
  using writeFile_mono by (simp add: copyFile_def split: sum.splits)

lemma copyAll_mono: "prefix (trace w) (trace (worldOf (copyAll ev fls w)))"
proof (induction fls arbitrary: w)
  case Nil
  then show ?case by simp
next
  case (Cons f fls)
  show ?case
    unfolding copyAll.simps by (rule thenDo_trace [OF copyFile_mono Cons.IH])
qed

lemma outputFile_mono: "prefix (trace w) (trace (worldOf (outputFile p c w)))"
  unfolding outputFile_def by (rule thenDo_trace [OF ensureDir_mono writeFile_mono])

lemma gitClone_mono: "prefix (trace w) (trace (worldOf (gitClone ev base w)))"
  by (simp add: gitClone_def externalWrites_trace split: sum.splits)

lemma npmInstall_mono: "prefix (trace w) (trace (worldOf (npmInstall ev base w)))"
  by (simp add: npmInstall_def externalWrites_trace split: sum.splits)

lemma renderConfig_mono: "prefix (trace w) (trace (worldOf (renderConfig ev w)))"
  using outputFile_mono by (simp add: renderConfig_def split: sum.splits)

lemma cloneStep_mono: "prefix (trace w) (trace (snd (cloneStep ev w)))"
proof -
  let ?w0 = "emit (SpinnerStart ''Cloning repository...'') (emit (Step ''Cloning the repository...'') w)"
  have "prefix (trace ?w0) (trace (worldOf (thenDo (ensureDir (fsApp ev) ?w0) (gitClone ev (fsApp ev)))))"
    by (rule thenDo_trace [OF ensureDir_mono gitClone_mono])
  then show ?thesis
    by (cases "simpleGit ev w") (simp_all add: cloneStep_uncaught cloneStep_try)
qed

lemma dataStep_mono: "prefix (trace w) (trace (snd (dataStep ev w)))"
proof -
  let ?w0 = "emit (SpinnerStart (''Setting up data directory...'' @ [nl]))
                (emit (Step ''Creating data folder and copying files...'') (emit (Log [nl]) w))"
  have "prefix (trace ?w0) (trace (worldOf (thenDo (ensureDir (fsData ev) ?w0) (copyAll ev dataFiles))))"
    by (rule thenDo_trace [OF ensureDir_mono copyAll_mono])
  then show ?thesis by (simp add: dataStep_def fsData_def)
qed

lemma configStep_mono: "prefix (trace w) (trace (snd (configStep ev w)))"
  using renderConfig_mono [of "emit (SpinnerStart ''Generating config.properties...'')
             (emit (Step ''Generating config.properties...'') (emit (Log [nl]) w))" ev]
  by (simp add: configStep_def)

lemma installStep_mono: "prefix (trace w) (trace (snd (installStep ev w)))"
  using npmInstall_mono [of "emit (SpinnerStart ''Installing dependencies...'')
             (emit (Step ''Installing dependencies...'') (emit (Log [nl]) w))" ev]
  by (simp add: installStep_def)

lemma tomcatStep_world [simp]:
  "files (snd (tomcatStep ev w)) = files w" "trace (snd (tomcatStep ev w)) = trace w"
  by (simp_all add: tomcatStep_def Let_def split: sum.splits)

lemma doneStep_world [simp]:
  "files (snd (doneStep ev w)) = files w" "trace (snd (doneStep ev w)) = trace w"
  by (simp_all add: doneStep_def)

lemma provision_mono: "prefix (trace w) (trace (snd (provision ev w)))"
  unfolding provision_def
  by (intro seq_trace cloneStep_mono dataStep_mono configStep_mono installStep_mono) simp_all

text \<open>
  C5.  When the target directory exists and the overwrite is accepted, the input step
  removes the target directory and goes on: the removal is the first file-system
  operation of the run, nothing at or below the target directory is left in the world
  in which the provisioning steps start, and every directory made and file written by
  the run comes after it.
\<close>

theorem accepted_overwrite_removes_target_first:
  assumes "existsSync (fsTarget ev) w" and "overwriteAnswer ev"
  shows "\<exists>w1 rest.
     inputCollector ev w = (None, w1) \<and> main ev w = provision ev w1
     \<and> trace w1 = trace w @ [Removed (fsTarget ev)]
     \<and> (\<forall>q. prefix (fsTarget ev) q \<longrightarrow> lookup (files w1) q = None)
     \<and> trace (snd (main ev w)) = trace w @ Removed (fsTarget ev) # rest"
proof -
  let ?w' = "emit (Prompt (''Directory '' @ [CHR 0x22] @ projectName ev @ [CHR 0x22]
                               @ '' already exists. Overwrite?''))
              (emit (Log [nl]) (emit (Prompt ''Enter your project name:'')
                 (emit (Log (nl # ''Welcome to Park.me Project Setup!'' @ [nl])) w)))"
  let ?w1 = "remove (fsTarget ev) ?w'"
  have i: "inputCollector ev w = (None, ?w1)"
    using assms by (simp add: inputCollector_def Let_def fsTarget_def existsSync_def)
  have m: "main ev w = provision ev ?w1"
    by (simp add: main_def seq_def i)
  have t: "trace ?w1 = trace w @ [Removed (fsTarget ev)]"
    by (simp add: remove_def)
  have l: "\<forall>q. prefix (fsTarget ev) q \<longrightarrow> lookup (files ?w1) q = None"
    by (simp add: lookup_remove)
  have "prefix (trace ?w1) (trace (snd (provision ev ?w1)))"
    by (rule provision_mono)
  then obtain rest where "trace (snd (main ev w)) = trace w @ Removed (fsTarget ev) # rest"
    unfolding m t by (auto simp add: prefix_def)
  with i m t l show ?thesis by blast
qed

theorem accepted_overwrite_removes_target_first_witness:
  "existsSync (fsTarget exampleEnv) (initialWorld exampleFs) \<and> overwriteAnswer exampleEnv
   \<and> (\<exists>rest. trace (snd (main exampleEnv (initialWorld exampleFs))) =
          Removed [''w'', ''park-me-app''] # rest)"
proof -
  have h1: "existsSync (fsTarget exampleEnv) (initialWorld exampleFs)" by code_simp
  have h2: "overwriteAnswer exampleEnv" by code_simp
  have t: "fsTarget exampleEnv = [''w'', ''park-me-app'']" by code_simp
  have e: "trace (initialWorld exampleFs) = []" by (simp add: initialWorld_def)
  show ?thesis
    using h1 h2 accepted_overwrite_removes_target_first [OF h1 h2] unfolding t e by auto
qed









lemma dataFiles_clean: "f \<in> set dataFiles \<Longrightarrow> cleanSegment f"
  by (auto simp add: dataFiles_def cleanSegment_def slash_def)




section \<open>Occurrences and replacement\<close>

lemma occursAt_nth:
  "occursAt s u m \<longleftrightarrow> m + length u \<le> length s \<and> (\<forall>n < length u. s ! (m + n) = u ! n)"
  by (auto simp add: occursAt_def list_eq_iff_nth_eq)

lemma occursAt_append_left:
  "m + length u \<le> length a \<Longrightarrow> occursAt (a @ b) u m = occursAt a u m"
  by (simp add: occursAt_def)

lemma occursAt_append_right:
  "length a \<le> m \<Longrightarrow> occursAt (a @ b) u m = occursAt b u (m - length a)"
  by (auto simp add: occursAt_def)

lemma occursAt_0: "occursAt s u 0 = prefix u s"
proof
  assume "occursAt s u 0"
  then have "take (length u) s = u" by (simp add: occursAt_def)
  then have "s = u @ drop (length u) s" by (metis append_take_drop_id)
  then show "prefix u s" by (rule prefixI)
next
  assume "prefix u s"
  then obtain zs where "s = u @ zs" by (auto simp add: prefix_def)
  then show "occursAt s u 0" by (simp add: occursAt_def)
qed

lemma occursAt_Cons_0: "occursAt (c # cs) u 0 = prefix u (c # cs)"
  by (rule occursAt_0)

lemma occursAt_Cons_Suc: "occursAt (c # cs) u (Suc j) = occursAt cs u j"
  by (simp add: occursAt_def)

lemma occursAt_Nil: "occursAt [] u j = (u = [] \<and> j = 0)"
  by (auto simp add: occursAt_def)

lemma indexOf_Some:
  "indexOf s t = Some i \<Longrightarrow> occursAt s t i \<and> (\<forall>j < i. \<not> occursAt s t j)"
proof (induction s arbitrary: i)
  case Nil
  then show ?case by (auto simp add: occursAt_Nil split: if_splits)
next
  case (Cons c cs)
  show ?case
  proof (cases "prefix t (c # cs)")
    case True
    then show ?thesis using Cons.prems by (simp add: occursAt_Cons_0)
  next
    case False
    with Cons.prems obtain i' where i': "indexOf cs t = Some i'" and i: "i = Suc i'"
      by (auto split: option.splits)
    from Cons.IH [OF i'] have a: "occursAt cs t i'" and b: "\<forall>j < i'. \<not> occursAt cs t j"
      by simp_all
    have "\<not> occursAt (c # cs) t j" if "j < i" for j
    proof (cases j)
      case 0
      then show ?thesis using False by (simp add: occursAt_Cons_0)
    next
      case (Suc j')
      then show ?thesis using that b i by (simp add: occursAt_Cons_Suc)
    qed
    then show ?thesis using a i by (simp add: occursAt_Cons_Suc)
  qed
qed

lemma indexOf_None: "indexOf s t = None \<Longrightarrow> \<not> occursAt s t j"
proof (induction s arbitrary: j)
  case Nil
  then show ?case by (auto simp add: occursAt_Nil split: if_splits)
next
  case (Cons c cs)
  then have np: "\<not> prefix t (c # cs)" and n: "indexOf cs t = None"
    by (auto split: if_splits option.splits)
  show ?case
  proof (cases j)
    case 0
    then show ?thesis using np by (simp add: occursAt_Cons_0)
  next
    case (Suc j')
    then show ?thesis using Cons.IH [OF n] by (simp add: occursAt_Cons_Suc)
  qed
qed

lemma indexOf_first:
  assumes "occursAt s t n" and "\<forall>m < n. \<not> occursAt s t m"
  shows "indexOf s t = Some n"
proof (cases "indexOf s t")
  case None
  then show ?thesis using indexOf_None assms(1) by blast
next
  case (Some i)
  from indexOf_Some [OF Some] have "occursAt s t i" and "\<forall>j < i. \<not> occursAt s t j" by simp_all
  with assms have "\<not> i < n" and "\<not> n < i" by auto
  then show ?thesis using Some by simp
qed

lemma contains_iff: "contains s u \<longleftrightarrow> (\<exists>m. occursAt s u m)"
proof
  assume "contains s u"
  then obtain i where "indexOf s u = Some i" by (auto simp add: contains_def)
  then show "\<exists>m. occursAt s u m" using indexOf_Some by blast
next
  assume "\<exists>m. occursAt s u m"
  then show "contains s u" using indexOf_None by (auto simp add: contains_def)
qed

lemma in_positions: "j \<in> set (positions s u) \<longleftrightarrow> occursAt s u j"
proof -
  have "occursAt s u j \<Longrightarrow> j < Suc (length s)" by (simp add: occursAt_def)
  then show ?thesis by (auto simp add: positions_def simp del: upt_Suc)
qed

lemma getSubstitution_plain:
  "dollar \<notin> set p \<Longrightarrow> getSubstitution matched str position p = p"
  by (induction matched str position p rule: getSubstitution.induct) auto

lemma replace_plain:
  "dollar \<notin> set p \<Longrightarrow>
   replace s t p = (case indexOf s t of None \<Rightarrow> s | Some i \<Rightarrow> splice s i (length t) p)"
  by (simp add: replace_def splice_def getSubstitution_plain split: option.splits)

lemma occurrences_apart:
  assumes k: "occursAt z k j" and x: "occursAt z x m"
    and kn: "k \<noteq> []" and kh: "hd k = percent" and kl: "last k = percent"
    and xp: "percent \<notin> set x" and xc: "\<exists>c \<in> set x. c \<notin> set k"
  shows "j + length k \<le> m \<or> m + length x \<le> j"
proof (rule ccontr)
  assume "\<not> ?thesis"
  then have o1: "m < j + length k" and o2: "j < m + length x" by auto
  from k have kz: "\<forall>n < length k. z ! (j + n) = k ! n" by (simp add: occursAt_nth)
  from x have xz: "\<forall>n < length x. z ! (m + n) = x ! n" by (simp add: occursAt_nth)
  have lk: "0 < length k" using kn by simp
  have first: "z ! j = percent"
    using kz lk kh kn by (metis add.right_neutral hd_conv_nth)
  have last: "z ! (j + (length k - 1)) = percent"
    using kz lk kl kn by (metis diff_less last_conv_nth zero_less_one)
  have jm: "j < m"
  proof (rule ccontr)
    assume "\<not> j < m"
    then have "j - m < length x" and "m + (j - m) = j" using o2 by auto
    then have "z ! j \<in> set x" using xz by (metis nth_mem)
    then show False using first xp by simp
  qed
  have over: "m + length x \<le> j + (length k - 1)"
  proof (rule ccontr)
    assume "\<not> m + length x \<le> j + (length k - 1)"
    then have "j + (length k - 1) - m < length x" and "m + (j + (length k - 1) - m) = j + (length k - 1)"
      using o1 by auto
    then have "z ! (j + (length k - 1)) \<in> set x" using xz by (metis nth_mem)
    then show False using last xp by simp
  qed
  from xc obtain c where cx: "c \<in> set x" and ck: "c \<notin> set k" by blast
  from cx obtain n where n: "n < length x" and cn: "x ! n = c" by (auto simp add: in_set_conv_nth)
  have "m + n - j < length k" and "j + (m + n - j) = m + n" using n over jm by auto
  then have "z ! (m + n) \<in> set k" using kz by (metis nth_mem)
  then show False using xz n cn ck by auto
qed

lemma splice_left:
  assumes "i \<le> length s" and "m + length u \<le> i"
  shows "occursAt (splice s i n p) u m = occursAt s u m"
proof -
  have "m + length u \<le> length (take i s)" using assms by simp
  then have "occursAt (take i s @ p @ drop (i + n) s) u m = occursAt (take i s) u m"
    by (rule occursAt_append_left)
  moreover have "occursAt (take i s @ drop i s) u m = occursAt (take i s) u m"
    using \<open>m + length u \<le> length (take i s)\<close> by (rule occursAt_append_left)
  ultimately show ?thesis by (simp add: splice_def)
qed

lemma splice_right:
  assumes "i + n \<le> length s" and "i + length p \<le> m"
  shows "occursAt (splice s i n p) u m = occursAt s u (m - length p + n)"
proof -
  have l: "length (take i s @ p) = i + length p" using assms by simp
  have "occursAt ((take i s @ p) @ drop (i + n) s) u m
      = occursAt (drop (i + n) s) u (m - length (take i s @ p))"
    using assms l by (intro occursAt_append_right) simp
  moreover have "occursAt (take (i + n) s @ drop (i + n) s) u (m - length p + n)
      = occursAt (drop (i + n) s) u (m - length p + n - length (take (i + n) s))"
    using assms by (intro occursAt_append_right) simp
  moreover have "m - length p + n - length (take (i + n) s) = m - length (take i s @ p)"
    using assms by simp
  ultimately show ?thesis by (simp add: splice_def)
qed

lemma splice_middle:
  assumes "i + n \<le> length s"
  shows "occursAt (splice s i n p) p i"
  using assms by (simp add: splice_def occursAt_def)

lemma plainPath_foreign: "plainPath p \<Longrightarrow> tokenLike k \<Longrightarrow> \<exists>c \<in> set p. c \<notin> set k"
  by (auto simp add: plainPath_def tokenLike_def)

lemma splice_origin:
  assumes t: "occursAt s t i" and k: "tokenLike k" and p: "plainPath p"
    and o: "occursAt (splice s i (length t) p) k j"
  shows "(j + length k \<le> i \<and> occursAt s k j)
      \<or> (i + length p \<le> j \<and> occursAt s k (j - length p + length t))"
proof -
  have b: "i + length t \<le> length s" using t by (simp add: occursAt_def)
  have "occursAt (splice s i (length t) p) p i" using b by (rule splice_middle)
  with o have "j + length k \<le> i \<or> i + length p \<le> j"
    using k p plainPath_foreign [OF p k]
    by (intro occurrences_apart [of _ k j p i]) (simp_all add: tokenLike_def plainPath_def)
  then show ?thesis
  proof
    assume l: "j + length k \<le> i"
    then have "occursAt s k j" using o splice_left [of i s j k "length t" p] b by simp
    with l show ?thesis by simp
  next
    assume r: "i + length p \<le> j"
    then have "occursAt s k (j - length p + length t)"
      using o splice_right [OF b r, of k] by simp
    with r show ?thesis by simp
  qed
qed

lemma splice_image:
  assumes t: "occursAt s t i" and u: "occursAt s u m"
    and d: "m + length u \<le> i \<or> i + length t \<le> m"
  shows "occursAt (splice s i (length t) p) u (if m + length u \<le> i then m else m - length t + length p)"
proof -
  have b: "i + length t \<le> length s" using t by (simp add: occursAt_def)
  show ?thesis
  proof (cases "m + length u \<le> i")
    case True
    then show ?thesis using u splice_left [of i s m u "length t" p] b by simp
  next
    case False
    with d have r: "i + length t \<le> m" by simp
    then have "i + length p \<le> m - length t + length p" by simp
    from splice_right [OF b this, of u] u r False show ?thesis by simp
  qed
qed

lemma tokens_tokenLike: "t \<in> set tokens \<Longrightarrow> tokenLike t"
  by (auto simp add: tokens_def tokenLike_def userToken_def bookingToken_def
      transactionToken_def slotsToken_def percent_def slash_def)

lemma shift_apart:
  fixes i n q :: nat
  assumes "m + a \<le> i \<or> i + n \<le> m" and "j + b \<le> i \<or> i + n \<le> j"
    and "m + a \<le> j \<or> j + b \<le> m"
  shows "(if m + a \<le> i then m else m - n + q) + a \<le> (if j + b \<le> i then j else j - n + q)
       \<or> (if j + b \<le> i then j else j - n + q) + b \<le> (if m + a \<le> i then m else m - n + q)"
  using assms by (auto split: if_splits)

lemma replace_origin:
  assumes i: "indexOf s t = Some i" and k: "tokenLike k" and p: "plainPath p"
    and o: "occursAt (replace s t p) k j"
  shows "\<exists>j'. occursAt s k j' \<and> (j' + length k \<le> i \<or> i + length t \<le> j')
           \<and> j = (if j' + length k \<le> i then j' else j' - length t + length p)"
proof -
  have t: "occursAt s t i" using indexOf_Some [OF i] by simp
  have r: "replace s t p = splice s i (length t) p"
    using p i by (simp add: replace_plain plainPath_def)
  from splice_origin [OF t k p o [unfolded r]] show ?thesis
  proof (elim disjE conjE)
    assume "j + length k \<le> i" "occursAt s k j"
    then show ?thesis by (intro exI [of _ j]) simp
  next
    assume a: "i + length p \<le> j" and b: "occursAt s k (j - length p + length t)"
    have kl: "0 < length k" using k by (simp add: tokenLike_def)
    let ?j' = "j - length p + length t"
    have n: "\<not> ?j' + length k \<le> i" using a kl by linarith
    have r: "i + length t \<le> ?j'" using a by linarith
    have e: "j = ?j' - length t + length p" using a by linarith
    show ?thesis
      using b n r e by (intro exI [of _ ?j']) (simp only: if_False simp_thms)
  qed
qed

lemma replace_image:
  assumes i: "indexOf s t = Some i" and p: "dollar \<notin> set p" and u: "occursAt s u m"
    and d: "m + length u \<le> i \<or> i + length t \<le> m"
  shows "occursAt (replace s t p) u (if m + length u \<le> i then m else m - length t + length p)"
proof -
  have t: "occursAt s t i" using indexOf_Some [OF i] by simp
  have r: "replace s t p = splice s i (length t) p"
    using p i by (simp add: replace_plain)
  show ?thesis unfolding r using t u d by (rule splice_image)
qed

lemma replace_absent: "indexOf s t = None \<Longrightarrow> replace s t p = s"
  by (simp add: replace_def)

text \<open>No occurrence of a token appears out of nothing.\<close>

lemma replace_keeps_absent:
  assumes "tokenLike k" and "plainPath p" and "\<forall>j. \<not> occursAt s k j"
  shows "\<not> occursAt (replace s t p) k j"
proof (cases "indexOf s t")
  case None
  then show ?thesis using assms(3) by (simp add: replace_absent)
next
  case (Some i)
  show ?thesis using replace_origin [OF Some assms(1,2)] assms(3) by blast
qed




lemma separated_iff:
  "separated s \<longleftrightarrow>
     (\<forall>a \<in> set tokens. \<forall>b \<in> set tokens. \<forall>i j. occursAt s a i \<and> occursAt s b j \<longrightarrow>
        (a = b \<and> i = j) \<or> i + length a \<le> j \<or> j + length b \<le> i)"
  unfolding separated_def by (simp only: Ball_def in_positions) blast

lemma clearOfTokens_iff:
  "clearOfTokens s u \<longleftrightarrow>
     (\<exists>m. occursAt s u m \<and> (\<forall>b \<in> set tokens. \<forall>j. occursAt s b j \<longrightarrow>
        m + length u \<le> j \<or> j + length b \<le> m))"
  unfolding clearOfTokens_def by (simp only: Ball_def Bex_def in_positions)



lemma replace_keeps_separated:
  assumes sep: "separated s" and t: "t \<in> set tokens" and p: "plainPath p"
  shows "separated (replace s t p)"
proof (cases "indexOf s t")
  case None
  then show ?thesis using sep by (simp add: replace_absent)
next
  case (Some i0)
  show ?thesis
    unfolding separated_iff
  proof (intro ballI allI impI)
    fix a b i j
    assume a: "a \<in> set tokens" and b: "b \<in> set tokens"
      and o: "occursAt (replace s t p) a i \<and> occursAt (replace s t p) b j"
    from replace_origin [OF Some tokens_tokenLike [OF a] p] o obtain i' where i': "occursAt s a i'"
      and di: "i' + length a \<le> i0 \<or> i0 + length t \<le> i'"
      and fi: "i = (if i' + length a \<le> i0 then i' else i' - length t + length p)" by blast
    from replace_origin [OF Some tokens_tokenLike [OF b] p] o obtain j' where j': "occursAt s b j'"
      and dj: "j' + length b \<le> i0 \<or> i0 + length t \<le> j'"
      and fj: "j = (if j' + length b \<le> i0 then j' else j' - length t + length p)" by blast
    from sep a b i' j' have "(a = b \<and> i' = j') \<or> i' + length a \<le> j' \<or> j' + length b \<le> i'"
      unfolding separated_iff by blast
    then show "(a = b \<and> i = j) \<or> i + length a \<le> j \<or> j + length b \<le> i"
    proof
      assume "a = b \<and> i' = j'"
      then show ?thesis using fi fj by simp
    next
      assume "i' + length a \<le> j' \<or> j' + length b \<le> i'"
      from shift_apart [OF di dj this, of "length p"] show ?thesis
        unfolding fi fj by blast
    qed
  qed
qed




lemma splitSlash_chars: "s \<in> set (splitSlash cur x) \<Longrightarrow> set s \<subseteq> set cur \<union> set x"
proof (induction x arbitrary: cur)
  case Nil
  then show ?case by auto
next
  case (Cons c x)
  show ?case
  proof (cases "c = slash")
    case True
    with Cons.prems have "s = rev cur \<or> s \<in> set (splitSlash [] x)" by simp
    then show ?thesis using Cons.IH [of "[]"] by auto
  next
    case False
    with Cons.prems have "s \<in> set (splitSlash (c # cur) x)" by simp
    from Cons.IH [OF this] show ?thesis by auto
  qed
qed

lemma joinSlash_chars: "c \<in> set (joinSlash xs) \<Longrightarrow> c = slash \<or> (\<exists>s \<in> set xs. c \<in> set s)"
  by (induction xs rule: joinSlash.induct) auto

lemma normalizeString_chars:
  assumes "c \<in> set (normalizeString x False)"
  shows "c = slash \<or> c \<in> set x"
proof -
  from assms have "c = slash \<or> (\<exists>s \<in> set (normalizeSegments False [] (splitSlash [] x)). c \<in> set s)"
    unfolding normalizeString_def by (rule joinSlash_chars)
  then show ?thesis
  proof
    assume "c = slash"
    then show ?thesis by simp
  next
    assume "\<exists>s \<in> set (normalizeSegments False [] (splitSlash [] x)). c \<in> set s"
    then obtain s where s: "s \<in> set (normalizeSegments False [] (splitSlash [] x))" and c: "c \<in> set s"
      by blast
    from normalizeSegments_member [OF s] have "s \<in> set (splitSlash [] x)" by simp
    from splitSlash_chars [OF this] c show ?thesis by auto
  qed
qed

lemma dataPath_plain:
  assumes d: "plainDir d" and f: "f \<in> set dataFiles"
  shows "plainPath (dataPath d f)"
proof -
  have dn: "d \<noteq> []" and da: "isAbsolute d" using d by (auto simp add: plainDir_def isAbsolute_def)
  have fn: "f \<noteq> []" and fl: "last f \<noteq> slash" and fc: "percent \<notin> set f" "dollar \<notin> set f"
    using f by (auto simp add: dataFiles_def slash_def percent_def dollar_def)
  let ?x = "d @ slash # f"
  let ?q = "normalizeString ?x False"
  have abs: "isAbsolute ?x" using da by (simp add: isAbsolute_def)
  have j: "path_join [d, f] = (if ?q = [] then ''/'' else slash # ?q)"
    using dn fn fl abs by (simp add: path_join_def normalize_def Let_def)
  have sl: "slash \<in> set (path_join [d, f])" by (simp add: j slash_def)
  have ch: "c = slash \<or> c \<in> set d \<or> c \<in> set f" if "c \<in> set (path_join [d, f])" for c
  proof (cases "?q = []")
    case True
    then show ?thesis using that by (simp add: j slash_def)
  next
    case False
    then have "c = slash \<or> c \<in> set ?q" using that by (simp add: j)
    then show ?thesis using normalizeString_chars [of c ?x] by auto
  qed
  have n1: "percent \<notin> set (path_join [d, f])"
    using ch [of percent] d fc by (auto simp add: plainDir_def percent_def slash_def)
  have n2: "dollar \<notin> set (path_join [d, f])"
    using ch [of dollar] d fc by (auto simp add: plainDir_def dollar_def slash_def)
  show ?thesis
    using sl n1 n2
    by (auto simp add: plainPath_def dataPath_def normalizePath_def percent_def dollar_def
        slash_def backslash_def image_iff)
qed



lemma tokens_members:
  "userToken \<in> set tokens" "bookingToken \<in> set tokens" "transactionToken \<in> set tokens"
  "slotsToken \<in> set tokens"
  by (simp_all add: tokens_def)

lemma dataFiles_members:
  "''users.json'' \<in> set dataFiles" "''bookings.json'' \<in> set dataFiles"
  "''transactions.json'' \<in> set dataFiles" "''parkingSlots.json'' \<in> set dataFiles"
  by (simp_all add: dataFiles_def)

lemma exampleTemplate_separated: "separated exampleTemplate"
  by code_simp




text \<open>
  C7, as the code has it.  An unrecognized token that shares its first percent signs
  with the end of a recognized token goes with it.
\<close>

theorem overlapping_unrecognized_token_is_lost:
  "contains ''%%user.file.path%%mode%%'' ''%%mode%%''
   \<and> \<not> contains (result ''%%user.file.path%%mode%%'' ''/w/p/data'') ''%%mode%%''"
  by code_simp

lemma splice_nth_middle:
  assumes "i + n \<le> length s" and "x < length r"
  shows "splice s i n r ! (i + x) = r ! x"
  using assms by (simp add: splice_def nth_append)

lemma fenced_insert:
  assumes o: "occursAt (splice s i n r) k j" and k: "tokenLike k" and b: "i + n \<le> length s"
    and r: "r = r0 @ slash # f" and h: "hd r = slash" and pf: "percent \<notin> set f"
  shows "j + length k \<le> i \<or> i + length r \<le> j \<or> (i \<le> j \<and> j + length k \<le> i + length r)"
proof (rule ccontr)
  assume n: "\<not> ?thesis"
  let ?z = "splice s i n r"
  from o have kz: "\<forall>x < length k. ?z ! (j + x) = k ! x" by (simp add: occursAt_nth)
  have kn: "k \<noteq> []" and kh: "hd k = percent" and ks: "slash \<notin> set k"
    using k by (simp_all add: tokenLike_def)
  have rl: "length r = length r0 + 1 + length f" using r by simp
  have mid: "?z ! (i + x) = r ! x" if "x < length r" for x
    using b that by (rule splice_nth_middle)
  have inside: "\<not> (j \<le> q \<and> q < j + length k)" if "?z ! q = slash" for q
  proof
    assume a: "j \<le> q \<and> q < j + length k"
    then have "q - j < length k" and "j + (q - j) = q" by auto
    then have "?z ! q \<in> set k" using kz by (metis nth_mem)
    with that ks show False by simp
  qed
  have "r \<noteq> []" using r by simp
  then have r0: "r ! 0 = slash" using h by (simp add: hd_conv_nth)
  have z0: "?z ! i = slash" using mid [of 0] r0 rl by simp
  have zf: "?z ! (i + length r0) = slash" using mid [of "length r0"] r rl by (simp add: nth_append)
  show False
  proof (cases "j < i")
    case True
    with n have "j \<le> i \<and> i < j + length k" by auto
    with inside [OF z0] show False by simp
  next
    case False
    with n have a: "i \<le> j" and c: "j < i + length r" and e: "i + length r < j + length k"
      by auto
    have q: "i + length r0 < j" using inside [OF zf] e rl by auto
    define x where "x = j - i"
    have x: "x < length r" and jx: "j = i + x" and x0: "length r0 < x"
      using a c q by (simp_all add: x_def)
    have "r ! x = f ! (x - length r0 - 1)"
      using x0 by (simp add: r nth_append nth_Cons')
    moreover have "x - length r0 - 1 < length f" using x x0 rl by simp
    ultimately have "r ! x \<in> set f" by simp
    then have "?z ! j \<in> set f" using mid [OF x] jx by simp
    moreover have "?z ! j = percent"
      using kz kn kh by (metis add.right_neutral hd_conv_nth length_greater_0_conv)
    ultimately show False using pf by simp
  qed
qed

lemma getSubstitution_fence:
  assumes "dollar \<notin> set f"
  shows "\<exists>r0. getSubstitution m s i (x @ slash # f) = r0 @ slash # f
           \<and> (hd (x @ [slash]) = slash \<longrightarrow> hd (r0 @ [slash]) = slash)"
proof (induction m s i x rule: getSubstitution.induct)
  case (1 matched str position)
  have "getSubstitution matched str position (slash # f) = slash # f"
    using assms by (intro getSubstitution_plain) (simp add: slash_def dollar_def)
  then show ?case by (intro exI [of _ "[]"]) simp
next
  case (2 matched str position c)
  have p: "getSubstitution matched str position (slash # f) = slash # f"
    using assms by (intro getSubstitution_plain) (simp add: slash_def dollar_def)
  have "getSubstitution matched str position ([c] @ slash # f) = [c] @ slash # f"
    using p by (simp add: slash_def dollar_def ampersand_def backtick_def apostrophe_def)
  then show ?case by (intro exI [of _ "[c]"]) simp
next
  case (3 matched str position c d rest)
  show ?case
  proof (cases "c = dollar")
    case False
    from 3(6) [OF False] obtain r0 where
      "getSubstitution matched str position ((d # rest) @ slash # f) = r0 @ slash # f" by blast
    then have "getSubstitution matched str position ((c # d # rest) @ slash # f)
        = (c # r0) @ slash # f"
      using False by simp
    then show ?thesis by (intro exI [of _ "c # r0"]) simp
  next
    case True
    then have nh: "hd ((c # d # rest) @ [slash]) \<noteq> slash" by (simp add: dollar_def slash_def)
    consider (a) "d = dollar" | (b) "d \<noteq> dollar" "d = ampersand"
      | (c) "d \<noteq> dollar" "d \<noteq> ampersand" "d = backtick"
      | (d) "d \<noteq> dollar" "d \<noteq> ampersand" "d \<noteq> backtick" "d = apostrophe"
      | (e) "d \<noteq> dollar" "d \<noteq> ampersand" "d \<noteq> backtick" "d \<noteq> apostrophe"
      by blast
    then show ?thesis
    proof cases
      case a
      from 3(1) [OF True a] obtain r0 where
        "getSubstitution matched str position (rest @ slash # f) = r0 @ slash # f" by blast
      then have "getSubstitution matched str position ((c # d # rest) @ slash # f)
          = (dollar # r0) @ slash # f"
        using True a by simp
      then show ?thesis using nh by (intro exI [of _ "dollar # r0"]) simp
    next
      case b
      from 3(2) [OF True b] obtain r0 where
        "getSubstitution matched str position (rest @ slash # f) = r0 @ slash # f" by blast
      then have "getSubstitution matched str position ((c # d # rest) @ slash # f)
          = (matched @ r0) @ slash # f"
        using True b by simp
      then show ?thesis using nh by (intro exI [of _ "matched @ r0"]) simp
    next
      case c
      from 3(3) [OF True c] obtain r0 where
        "getSubstitution matched str position (rest @ slash # f) = r0 @ slash # f" by blast
      then have "getSubstitution matched str position ((c # d # rest) @ slash # f)
          = (take position str @ r0) @ slash # f"
        using True c by simp
      then show ?thesis using nh by (intro exI [of _ "take position str @ r0"]) simp
    next
      case d
      from 3(4) [OF True d] obtain r0 where
        "getSubstitution matched str position (rest @ slash # f) = r0 @ slash # f" by blast
      then have "getSubstitution matched str position ((c # d # rest) @ slash # f)
          = (drop (position + length matched) str @ r0) @ slash # f"
        using True d by simp
      then show ?thesis
        using nh by (intro exI [of _ "drop (position + length matched) str @ r0"]) simp
    next
      case e
      from 3(5) [OF True e] obtain r0 where
        "getSubstitution matched str position ((d # rest) @ slash # f) = r0 @ slash # f" by blast
      then have "getSubstitution matched str position ((c # d # rest) @ slash # f)
          = (c # r0) @ slash # f"
        using True e by simp
      then show ?thesis using nh by (intro exI [of _ "c # r0"]) simp
    qed
  qed
qed


lemma joinSlash_snoc: "xs \<noteq> [] \<Longrightarrow> joinSlash (xs @ [f]) = joinSlash xs @ slash # f"
  by (induction xs rule: joinSlash.induct) simp_all

lemma dataFiles_plain:
  assumes "f \<in> set dataFiles"
  shows "normalizePath f = f" and "percent \<notin> set f" and "dollar \<notin> set f"
  using assms
  by (auto simp add: dataFiles_def normalizePath_def backslash_def percent_def dollar_def)

lemma dataPath_shape:
  assumes d: "isAbsolute d" and f: "f \<in> set dataFiles"
  shows "\<exists>x. dataPath d f = x @ slash # f \<and> hd (x @ [slash]) = slash"
proof -
  have dn: "d \<noteq> []" using d by (simp add: isAbsolute_def)
  have fc: "cleanSegment f" using f by (rule dataFiles_clean)
  then have fn: "f \<noteq> []" and fs: "slash \<notin> set f" by (simp_all add: cleanSegment_def)
  then have fl: "last f \<noteq> slash" by (metis last_in_set)
  let ?N = "normalizeSegments False [] (splitSlash [] d)"
  let ?p = "d @ slash # f"
  have abs: "isAbsolute ?p" using d by (simp add: isAbsolute_def)
  have "normalizeSegments False (rev ?N) [f] = rev (rev ?N) @ [f]"
    using fc by (intro normalizeSegments_clean) simp
  moreover have "splitSlash [] ?p = splitSlash [] d @ [f]"
    using fs by (simp add: splitSlash_slash splitSlash_noslash)
  ultimately have q: "normalizeString ?p False = joinSlash (?N @ [f])"
    by (simp only: normalizeString_def normalizeSegments_append rev_rev_ident)
  have qn: "joinSlash (?N @ [f]) \<noteq> []"
  proof (cases "?N = []")
    case True
    then show ?thesis using fn by simp
  next
    case False
    then show ?thesis by (simp add: joinSlash_snoc)
  qed
  have j: "path_join [d, f] = slash # joinSlash (?N @ [f])"
    using dn fn fl abs q qn by (simp add: path_join_def normalize_def Let_def)
  have nf: "normalizePath f = f" using f by (rule dataFiles_plain)
  have ns: "normalizePath [slash] = [slash]" by (simp add: normalizePath_def)
  show ?thesis
  proof (cases "?N = []")
    case True
    then have "dataPath d f = [] @ slash # f"
      using j nf by (simp add: dataPath_def normalizePath_def)
    then show ?thesis by (intro exI [of _ "[]"]) simp
  next
    case False
    then have "path_join [d, f] = (slash # joinSlash ?N) @ slash # f"
      using j by (simp add: joinSlash_snoc)
    then have "dataPath d f = normalizePath (slash # joinSlash ?N) @ slash # f"
      using nf by (simp add: dataPath_def normalizePath_def)
    moreover have "hd (normalizePath (slash # joinSlash ?N) @ [slash]) = slash"
      by (simp add: normalizePath_def)
    ultimately show ?thesis by blast
  qed
qed

lemma replace_splice:
  "indexOf s t = Some i \<Longrightarrow>
   replace s t rep = splice s i (length t) (getSubstitution t s i rep)"
  by (simp add: replace_def splice_def)

lemma replace_fenced_keeps_clear:
  assumes c: "clearOfTokens s u" and t: "t \<in> set tokens"
    and rep: "rep = x @ slash # f" and hx: "hd (x @ [slash]) = slash"
    and fd: "dollar \<notin> set f" and fp: "percent \<notin> set f"
  shows "clearOfTokens (replace s t rep) u"
proof (cases "indexOf s t")
  case None
  then show ?thesis using c by (simp add: replace_absent)
next
  case (Some i0)
  let ?r = "getSubstitution t s i0 rep"
  from getSubstitution_fence [OF fd, of t s i0 x] hx obtain r0 where r: "?r = r0 @ slash # f"
    and "hd (r0 @ [slash]) = slash" unfolding rep by blast
  then have hr: "hd ?r = slash" by (cases r0) simp_all
  have s': "replace s t rep = splice s i0 (length t) ?r" using Some by (rule replace_splice)
  from c obtain m where m: "occursAt s u m"
    and cl: "\<forall>b \<in> set tokens. \<forall>j. occursAt s b j \<longrightarrow> m + length u \<le> j \<or> j + length b \<le> m"
    unfolding clearOfTokens_iff by blast
  have ti: "occursAt s t i0" using indexOf_Some [OF Some] by simp
  then have bd: "i0 + length t \<le> length s" by (simp add: occursAt_def)
  from cl t ti have dm: "m + length u \<le> i0 \<or> i0 + length t \<le> m" by blast
  let ?m = "if m + length u \<le> i0 then m else m - length t + length ?r"
  have im: "occursAt (splice s i0 (length t) ?r) u ?m"
    using ti m dm by (rule splice_image)
  have "?m + length u \<le> j \<or> j + length b \<le> ?m"
    if b: "b \<in> set tokens" and o: "occursAt (splice s i0 (length t) ?r) b j" for b j
  proof -
    from fenced_insert [OF o tokens_tokenLike [OF b] bd r hr fp]
    consider (left) "j + length b \<le> i0" | (right) "i0 + length ?r \<le> j"
      | (mid) "i0 \<le> j" "j + length b \<le> i0 + length ?r" by blast
    then show ?thesis
    proof cases
      case left
      then have "occursAt s b j" using o splice_left [of i0 s j b "length t" ?r] bd by simp
      with cl b have "m + length u \<le> j \<or> j + length b \<le> m" by blast
      with left dm show ?thesis by auto
    next
      case right
      then have "occursAt s b (j - length ?r + length t)"
        using o splice_right [OF bd right, of b] by simp
      with cl b have "m + length u \<le> j - length ?r + length t
          \<or> j - length ?r + length t + length b \<le> m" by blast
      with right dm show ?thesis by auto
    next
      case mid
      with dm show ?thesis by auto
    qed
  qed
  with im show ?thesis unfolding s' clearOfTokens_iff by blast
qed

text \<open>
  C7.  For an absolute data directory (the program computes it with
  \<open>path.resolve\<close>): a text with an occurrence in the template that overlaps no
  occurrence of the four tokens is still in the rendered text; and \<open>replace\<close> with a
  pattern that does not occur in the template returns the template.  Rendering is a
  total function: there is no error to raise.
\<close>

theorem clear_unrecognized_token_is_kept:
  assumes d: "isAbsolute d" and c: "clearOfTokens template u"
  shows "contains (result template d) u
     \<and> (\<forall>pat rep. \<not> contains template pat \<longrightarrow> replace template pat rep = template)"
proof -
  have keep: "clearOfTokens (replace s t (dataPath d f)) u"
    if "clearOfTokens s u" and "t \<in> set tokens" and f: "f \<in> set dataFiles" for s t f
  proof -
    from dataPath_shape [OF d f] obtain x where "dataPath d f = x @ slash # f"
      and "hd (x @ [slash]) = slash" by blast
    with that(1,2) show ?thesis
      using dataFiles_plain(2,3) [OF f] by (intro replace_fenced_keeps_clear [of s u t _ x f])
  qed
  have "clearOfTokens (result template d) u"
    unfolding result_def by (intro keep c tokens_members dataFiles_members)
  then have "contains (result template d) u"
    unfolding clearOfTokens_iff contains_iff by blast
  moreover have "replace template pat rep = template" if "\<not> contains template pat" for pat rep
    using that by (simp add: contains_def replace_absent)
  ultimately show ?thesis by blast
qed

theorem clear_unrecognized_token_is_kept_witness:
  "isAbsolute ''/w/$&/data'' \<and> clearOfTokens exampleTemplate ''%%mode%%''
   \<and> contains (result exampleTemplate ''/w/$&/data'') ''%%mode%%''
   \<and> \<not> contains exampleTemplate ''%%port%%''
   \<and> replace exampleTemplate ''%%port%%'' ''8080'' = exampleTemplate"
proof -
  have h1: "isAbsolute ''/w/$&/data''" by code_simp
  have h2: "clearOfTokens exampleTemplate ''%%mode%%''" by code_simp
  have h3: "\<not> contains exampleTemplate ''%%port%%''" by code_simp
  show ?thesis
    using h1 h2 h3 clear_unrecognized_token_is_kept [OF h1 h2] by blast
qed

lemma splice_at: "length a = i \<Longrightarrow> length x = n \<Longrightarrow> splice (a @ x @ c) i n p = a @ p @ c"
  by (simp add: splice_def)

lemma splice_commute:
  assumes "i + n \<le> j" and "j + m \<le> length s"
  shows "splice (splice s i n p) (j - n + length p) m q = splice (splice s j m q) i n p"
proof -
  define u where "u = take i s"
  define x where "x = take n (drop i s)"
  define v where "v = take (j - (i + n)) (drop (i + n) s)"
  define y where "y = take m (drop j s)"
  define w where "w = drop (j + m) s"
  have lu: "length u = i" and lx: "length x = n" and lv: "length v = j - (i + n)"
    and ly: "length y = m"
    using assms by (simp_all add: u_def x_def v_def y_def)
  have "drop j s = y @ w"
    by (simp add: y_def w_def add.commute [of j m] flip: drop_drop)
  moreover have "drop (i + n) s = v @ drop j s"
    using assms by (simp add: v_def flip: drop_drop) (metis append_take_drop_id drop_drop le_add_diff_inverse2 add.commute)
  moreover have "drop i s = x @ drop (i + n) s"
    by (simp add: x_def add.commute [of i n] flip: drop_drop)
  moreover have "s = u @ drop i s" by (simp add: u_def)
  ultimately have s: "s = u @ x @ v @ y @ w" by simp
  have s': "s = (u @ x @ v) @ y @ w" using s by simp
  have l1: "length (u @ p @ v) = j - n + length p" using lu lv assms by simp
  have l2: "length (u @ x @ v) = j" using lu lx lv assms by simp
  have a1: "splice s i n p = u @ p @ v @ y @ w"
    by (subst s) (rule splice_at [OF lu lx])
  have a2: "splice ((u @ p @ v) @ y @ w) (j - n + length p) m q = (u @ p @ v) @ q @ w"
    by (rule splice_at [OF l1 ly])
  have b1: "splice s j m q = (u @ x @ v) @ q @ w"
    by (subst s') (rule splice_at [OF l2 ly])
  have b2: "splice (u @ x @ v @ q @ w) i n p = u @ p @ v @ q @ w"
    by (rule splice_at [OF lu lx])
  show ?thesis using a1 a2 b1 b2 by simp
qed

lemma indexOf_after_replace:
  assumes sep: "separated s" and a: "a \<in> set tokens" and b: "b \<in> set tokens" and ab: "a \<noteq> b"
    and p: "plainPath p" and i: "indexOf s a = Some i" and j: "indexOf s b = Some j"
  shows "indexOf (replace s a p) b = Some (if j + length b \<le> i then j else j - length a + length p)"
proof (rule indexOf_first)
  have ai: "occursAt s a i" using indexOf_Some [OF i] by simp
  have bj: "occursAt s b j" and first: "\<forall>m < j. \<not> occursAt s b m"
    using indexOf_Some [OF j] by simp_all
  have d: "j + length b \<le> i \<or> i + length a \<le> j"
    using sep a b ai bj ab unfolding separated_iff by blast
  have pd: "dollar \<notin> set p" using p by (simp add: plainPath_def)
  show "occursAt (replace s a p) b (if j + length b \<le> i then j else j - length a + length p)"
    using i pd bj d by (rule replace_image)
  have bl: "0 < length b" using tokens_tokenLike [OF b] by (simp add: tokenLike_def)
  show "\<forall>m < (if j + length b \<le> i then j else j - length a + length p).
          \<not> occursAt (replace s a p) b m"
  proof (intro allI impI notI)
    fix m
    assume lt: "m < (if j + length b \<le> i then j else j - length a + length p)"
      and o: "occursAt (replace s a p) b m"
    from replace_origin [OF i tokens_tokenLike [OF b] p o] obtain m' where m': "occursAt s b m'"
      and dm: "m' + length b \<le> i \<or> i + length a \<le> m'"
      and fm: "m = (if m' + length b \<le> i then m' else m' - length a + length p)" by blast
    have "j \<le> m'" using first m' by (meson not_le)
    with lt fm d dm bl show False by (auto split: if_splits)
  qed
qed

lemma indexOf_after_replace_None:
  assumes "tokenLike b" and "plainPath p" and "indexOf s b = None"
  shows "indexOf (replace s a p) b = None"
proof (cases "indexOf (replace s a p) b")
  case None
  then show ?thesis .
next
  case (Some m)
  then have "occursAt (replace s a p) b m" using indexOf_Some by blast
  moreover have "\<forall>j. \<not> occursAt s b j" using assms(3) indexOf_None by blast
  ultimately show ?thesis using replace_keeps_absent [OF assms(1,2)] by blast
qed

lemma replace_commute:
  assumes sep: "separated s" and a: "a \<in> set tokens" and b: "b \<in> set tokens" and ab: "a \<noteq> b"
    and pa: "plainPath pa" and pb: "plainPath pb"
  shows "replace (replace s a pa) b pb = replace (replace s b pb) a pa"
proof (cases "indexOf s a")
  case None
  have "indexOf (replace s b pb) a = None"
    using tokens_tokenLike [OF a] pb None by (rule indexOf_after_replace_None)
  then show ?thesis using None by (simp add: replace_absent)
next
  case (Some i)
  note i = this
  show ?thesis
  proof (cases "indexOf s b")
    case None
    have "indexOf (replace s a pa) b = None"
      using tokens_tokenLike [OF b] pa None by (rule indexOf_after_replace_None)
    then show ?thesis using None by (simp add: replace_absent)
  next
    case (Some j)
    note j = this
    have da: "dollar \<notin> set pa" and db: "dollar \<notin> set pb"
      using pa pb by (simp_all add: plainPath_def)
    have ai: "occursAt s a i" and bj: "occursAt s b j"
      using indexOf_Some [OF i] indexOf_Some [OF j] by simp_all
    have al: "0 < length a" and bl: "0 < length b"
      using tokens_tokenLike [OF a] tokens_tokenLike [OF b] by (simp_all add: tokenLike_def)
    have bi: "i + length a \<le> length s" and bj': "j + length b \<le> length s"
      using ai bj by (simp_all add: occursAt_def)
    have d: "i + length a \<le> j \<or> j + length b \<le> i"
      using sep a b ai bj ab unfolding separated_iff by blast
    let ?j1 = "if j + length b \<le> i then j else j - length a + length pa"
    let ?i1 = "if i + length a \<le> j then i else i - length b + length pb"
    have ib: "indexOf (replace s a pa) b = Some ?j1"
      using sep a b ab pa i j by (rule indexOf_after_replace)
    have ia: "indexOf (replace s b pb) a = Some ?i1"
      using sep b a ab [symmetric] pb j i by (rule indexOf_after_replace)
    have l: "replace (replace s a pa) b pb = splice (splice s i (length a) pa) ?j1 (length b) pb"
      using ib i da db by (simp add: replace_plain)
    have r: "replace (replace s b pb) a pa = splice (splice s j (length b) pb) ?i1 (length a) pa"
      using ia j da db by (simp add: replace_plain)
    from d show ?thesis
    proof
      assume c: "i + length a \<le> j"
      then have "\<not> j + length b \<le> i" using al bl by linarith
      with c have "?j1 = j - length a + length pa" and "?i1 = i" by simp_all
      then show ?thesis
        unfolding l r using splice_commute [OF c bj', of pa pb] by simp
    next
      assume c: "j + length b \<le> i"
      then have "\<not> i + length a \<le> j" using al bl by linarith
      with c have "?i1 = i - length b + length pb" and "?j1 = j" by simp_all
      then show ?thesis
        unfolding l r using splice_commute [OF c bi, of pb pa] by simp
    qed
  qed
qed

lemma substitutions_tokens:
  "x \<in> set substitutions \<Longrightarrow> fst x \<in> set tokens \<and> snd x \<in> set dataFiles"
  by (auto simp add: substitutions_def tokens_def dataFiles_def)

lemma substitutions_inj:
  assumes "x \<in> set substitutions" and "y \<in> set substitutions" and "fst x = fst y"
  shows "x = y"
proof -
  have "distinct (map fst substitutions)"
    by (simp add: substitutions_def userToken_def bookingToken_def transactionToken_def
        slotsToken_def)
  then have "inj_on fst (set substitutions)" by (simp add: distinct_map)
  then show ?thesis using assms by (auto dest: inj_onD)
qed

text \<open>
  C2, as the code has it.  In \<open>%%user.file.path%%booking.file.path%%\<close> the user token
  and the booking token share two percent signs, and whichever is replaced first
  takes them: the program's order and the reverse order give different texts.
\<close>

theorem overlapping_tokens_depend_on_order:
  "mset (rev substitutions) = mset substitutions
   \<and> resultInOrder (rev substitutions) ''%%user.file.path%%booking.file.path%%'' ''/w/p/data''
       \<noteq> result ''%%user.file.path%%booking.file.path%%'' ''/w/p/data''"
proof -
  have "resultInOrder (rev substitutions) ''%%user.file.path%%booking.file.path%%'' ''/w/p/data''
       \<noteq> result ''%%user.file.path%%booking.file.path%%'' ''/w/p/data''"
    by code_simp
  then show ?thesis by simp
qed

text \<open>
  C2.  For a data directory that is an absolute path without percent and dollar
  signs, and a template in which no two occurrences of tokens overlap, the four
  substitutions applied in any order give the text that the program's order gives.
\<close>

theorem separated_template_renders_in_any_order:
  assumes d: "plainDir d" and sep: "separated template"
    and perm: "mset order = mset substitutions"
  shows "resultInOrder order template d = result template d"
proof -
  have set_eq: "set order = set substitutions" using perm by (rule mset_eq_setD)
  have keep: "separated (substitute d x z)" if "x \<in> set order" and "separated z" for x z
  proof -
    from that(1) set_eq have "fst x \<in> set tokens" and "snd x \<in> set dataFiles"
      using substitutions_tokens by auto
    then show ?thesis
      unfolding substitute_def
      by (intro replace_keeps_separated that(2) dataPath_plain [OF d])
  qed
  have comm: "substitute d x (substitute d y z) = substitute d y (substitute d x z)"
    if x: "x \<in> set order" and y: "y \<in> set order" and z: "separated z" for x y z
  proof (cases "x = y")
    case True
    then show ?thesis by simp
  next
    case False
    from x y set_eq have xs: "x \<in> set substitutions" and ys: "y \<in> set substitutions" by auto
    then have ne: "fst y \<noteq> fst x" using False substitutions_inj by blast
    show ?thesis
      unfolding substitute_def
      using substitutions_tokens [OF xs] substitutions_tokens [OF ys]
      by (intro replace_commute z ne dataPath_plain [OF d]) simp_all
  qed
  have "fold (substitute d) order template = fold (substitute d) substitutions template"
    using perm sep keep comm by (rule fold_permuted_eq [where P = separated])
  moreover have "fold (substitute d) substitutions template = result template d"
    by (simp add: substitutions_def substitute_def result_def)
  ultimately show ?thesis by (simp add: resultInOrder_def)
qed

theorem separated_template_renders_in_any_order_witness:
  "plainDir ''/w/p/data'' \<and> separated exampleTemplate
   \<and> mset (rev substitutions) = mset substitutions
   \<and> resultInOrder (rev substitutions) exampleTemplate ''/w/p/data''
       = result exampleTemplate ''/w/p/data''
   \<and> separated ''%%booking.file.path%%,%%user.file.path%%''
   \<and> resultInOrder (rev substitutions) ''%%booking.file.path%%,%%user.file.path%%'' ''/w/p/data''
       = ''/w/p/data/bookings.json,/w/p/data/users.json''"
proof -
  have h1: "plainDir ''/w/p/data''" by code_simp
  have h2: "separated exampleTemplate" by (rule exampleTemplate_separated)
  have h3: "mset (rev substitutions) = mset substitutions" by simp
  have h4: "separated ''%%booking.file.path%%,%%user.file.path%%''" by code_simp
  have r: "result ''%%booking.file.path%%,%%user.file.path%%'' ''/w/p/data''
       = ''/w/p/data/bookings.json,/w/p/data/users.json''" by code_simp
  show ?thesis
    using h1 h2 h3 h4 separated_template_renders_in_any_order [OF h1 h2 h3]
      separated_template_renders_in_any_order [OF h1 h4 h3] r by simp
qed

end
